theory Spec2Isabelle
  imports Complex_Main "HOL-Library.Word" "HOL-Library.Signed_Division" "HOL-Library.Log_Nat"
begin

section \<open>Numbers and typed arrays\<close>

text \<open>
  The viewer is TypeScript, and a JavaScript \<open>number\<close> is an IEEE 754 double. The
  arithmetic of the window/level transform is modelled on doubles: a finite double is the
  rational number it denotes (\<open>Fin\<close>), and the other values are \<open>Infinity\<close>,
  \<open>-Infinity\<close> and \<open>NaN\<close>. An operation on finite doubles computes the exact
  rational result and rounds it to the nearest double, a tie going to the even
  significand (\<open>rnd\<close>): a number whose binary exponent is \<open>e\<close> is rounded to a multiple of
  \<open>2 powi (e - 52)\<close>, not below the exponent \<open>-1074\<close> of the subnormal numbers, and a
  result that rounds to \<open>2 ^ 1024\<close> or more is an infinity. The sign of a zero is not
  modelled: the transform compares, adds, subtracts, multiplies and rounds, which do not
  tell \<open>-0\<close> from \<open>0\<close>, and it divides by 2 and by the width of the window, which is
  shown below never to be zero where the division is reached.

  Frame indices, grid sizes and cell indices, which the specification takes to be
  integers, are \<^typ>\<open>int\<close>. The state store and the compositor hand window values on and
  test them for being zero but never compute with them; there they are \<^typ>\<open>real\<close>.

  The samples of an \<open>ImageData\<close> live in a \<open>Uint8ClampedArray\<close>: reading gives an
  integer in 0..255, writing a number rounds it to the nearest integer, a tie going to
  the even one, and clamps it to that range, \<open>NaN\<close> becoming 0; a write past the end is
  ignored (as \<open>xs[i := v]\<close> does in HOL).
\<close>

subsection \<open>Rounding to a double\<close>

text \<open>
  \<open>floor_log2 x\<close> is the binary exponent of a positive rational, found from the bit
  lengths of its numerator and denominator; \<open>ulp_exp x\<close> is the exponent of the spacing
  of the doubles around \<open>x\<close>; \<open>rne\<close> rounds to the nearest integer, ties to even.
\<close>

definition floor_log2 :: "rat \<Rightarrow> int" where
  "floor_log2 x =
     (let e = bitlen (fst (quotient_of x)) - bitlen (snd (quotient_of x))
      in if 2 powi e \<le> x then e else e - 1)"

definition ulp_exp :: "rat \<Rightarrow> int" where
  "ulp_exp x = (if x = 0 then - 1074 else max (floor_log2 \<bar>x\<bar>) (- 1022) - 52)"

definition rne :: "rat \<Rightarrow> int" where
  "rne x =
     (let f = \<lfloor>x\<rfloor>; d = x - of_int f
      in if d < 1 / 2 then f else if 1 / 2 < d then f + 1 else if even f then f else f + 1)"

definition to_grid :: "int \<Rightarrow> rat \<Rightarrow> rat" where
  "to_grid k x = of_int (rne (x / 2 powi k)) * 2 powi k"

definition rnd :: "rat \<Rightarrow> rat" where
  "rnd x = (if x < 0 then - to_grid (ulp_exp x) (- x) else to_grid (ulp_exp x) x)"

subsection \<open>Numbers and their operations\<close>

datatype jsnum = Fin rat | PInf | NInf | NaN

text \<open>
  \<open>fin x\<close> is the double that an operation with the exact result \<open>x\<close> returns; it is also
  the value of a decimal literal, so that the literal \<open>0.2\<close> is \<open>fin (1 / 5)\<close>.
\<close>

definition fin :: "rat \<Rightarrow> jsnum" where
  "fin x =
     (let r = rnd x
      in if 2 ^ 1024 \<le> r then PInf else if r \<le> - (2 ^ 1024) then NInf else Fin r)"

fun js_le :: "jsnum \<Rightarrow> jsnum \<Rightarrow> bool" where
  "js_le NaN b = False"
| "js_le a NaN = False"
| "js_le NInf b = True"
| "js_le a PInf = True"
| "js_le PInf b = False"
| "js_le a NInf = False"
| "js_le (Fin x) (Fin y) = (x \<le> y)"

definition js_ge :: "jsnum \<Rightarrow> jsnum \<Rightarrow> bool" where
  "js_ge a b = js_le b a"

fun js_lt :: "jsnum \<Rightarrow> jsnum \<Rightarrow> bool" where
  "js_lt NaN b = False"
| "js_lt a NaN = False"
| "js_lt PInf b = False"
| "js_lt a NInf = False"
| "js_lt NInf b = True"
| "js_lt a PInf = True"
| "js_lt (Fin x) (Fin y) = (x < y)"

fun js_add :: "jsnum \<Rightarrow> jsnum \<Rightarrow> jsnum" where
  "js_add NaN b = NaN"
| "js_add a NaN = NaN"
| "js_add PInf NInf = NaN"
| "js_add NInf PInf = NaN"
| "js_add PInf b = PInf"
| "js_add a PInf = PInf"
| "js_add NInf b = NInf"
| "js_add a NInf = NInf"
| "js_add (Fin x) (Fin y) = fin (x + y)"

fun js_sub :: "jsnum \<Rightarrow> jsnum \<Rightarrow> jsnum" where
  "js_sub NaN b = NaN"
| "js_sub a NaN = NaN"
| "js_sub PInf PInf = NaN"
| "js_sub NInf NInf = NaN"
| "js_sub PInf b = PInf"
| "js_sub a NInf = PInf"
| "js_sub NInf b = NInf"
| "js_sub a PInf = NInf"
| "js_sub (Fin x) (Fin y) = fin (x - y)"

fun js_mul :: "jsnum \<Rightarrow> jsnum \<Rightarrow> jsnum" where
  "js_mul NaN b = NaN"
| "js_mul a NaN = NaN"
| "js_mul (Fin x) (Fin y) = fin (x * y)"
| "js_mul (Fin x) PInf = (if x = 0 then NaN else if 0 < x then PInf else NInf)"
| "js_mul (Fin x) NInf = (if x = 0 then NaN else if 0 < x then NInf else PInf)"
| "js_mul PInf (Fin y) = (if y = 0 then NaN else if 0 < y then PInf else NInf)"
| "js_mul NInf (Fin y) = (if y = 0 then NaN else if 0 < y then NInf else PInf)"
| "js_mul PInf PInf = PInf"
| "js_mul PInf NInf = NInf"
| "js_mul NInf PInf = NInf"
| "js_mul NInf NInf = PInf"

text \<open>
  Division by a divisor that is not zero. \<open>js_divide\<close> is the division of the
  transform: a zero divisor, on which JavaScript would return an infinity or \<open>NaN\<close>, is
  an error of the model, so that a division by zero is a branch one can ask about.
\<close>

fun ieee_div :: "jsnum \<Rightarrow> jsnum \<Rightarrow> jsnum" where
  "ieee_div NaN b = NaN"
| "ieee_div a NaN = NaN"
| "ieee_div (Fin x) (Fin y) = fin (x / y)"
| "ieee_div (Fin x) PInf = Fin 0"
| "ieee_div (Fin x) NInf = Fin 0"
| "ieee_div PInf (Fin y) = (if 0 \<le> y then PInf else NInf)"
| "ieee_div NInf (Fin y) = (if 0 \<le> y then NInf else PInf)"
| "ieee_div a b = NaN"

datatype num_error = DivisionByZero

definition js_divide :: "jsnum \<Rightarrow> jsnum \<Rightarrow> num_error + jsnum" where
  "js_divide a b = (if b = Fin 0 then Inl DivisionByZero else Inr (ieee_div a b))"

text \<open>\<open>Math.round\<close> rounds halves up: it is \<open>\<lfloor>x + 1/2\<rfloor>\<close>, and leaves the other values.\<close>

fun Math_round :: "jsnum \<Rightarrow> jsnum" where
  "Math_round (Fin x) = Fin (of_int \<lfloor>x + 1 / 2\<rfloor>)"
| "Math_round a = a"

type_synonym u8 = "8 word"

fun toUint8Clamped :: "jsnum \<Rightarrow> u8" where
  "toUint8Clamped (Fin x) = word_of_int (max 0 (min 255 (rne x)))"
| "toUint8Clamped PInf = 255"
| "toUint8Clamped NInf = 0"
| "toUint8Clamped NaN = 0"

definition sample :: "u8 \<Rightarrow> jsnum" where
  "sample b = Fin (of_nat (unat b))"

section \<open>Window/level transform\<close>

text \<open>
  \<^verbatim>\<open>
  const windowMin = windowLevel - windowWidth / 2;
  const windowMax = windowLevel + windowWidth / 2;
  for (let i = 0; i < data.length; i += 4) {
    const gray = data[i];
    let newValue;
    if (gray <= windowMin) { newValue = 0; }
    else if (gray >= windowMax) { newValue = 255; }
    else { newValue = Math.round(((gray - windowMin) / (windowMax - windowMin)) * 255); }
    data[i] = newValue; data[i + 1] = newValue; data[i + 2] = newValue;
  }
  return imageData;
  \<close>
  The same text appears in the single viewer and in both grid viewers.
  \<open>newValue\<close> is the body of the loop for one sample; \<open>windowLevelLoop\<close> is the loop.
\<close>

definition newValue :: "jsnum \<Rightarrow> jsnum \<Rightarrow> jsnum \<Rightarrow> num_error + jsnum" where
  "newValue windowMin windowMax gray =
     (if js_le gray windowMin then Inr (Fin 0)
      else if js_ge gray windowMax then Inr (Fin 255)
      else (case js_divide (js_sub gray windowMin) (js_sub windowMax windowMin) of
              Inl e \<Rightarrow> Inl e
            | Inr q \<Rightarrow> Inr (Math_round (js_mul q (Fin 255)))))"

function windowLevelLoop :: "jsnum \<Rightarrow> jsnum \<Rightarrow> nat \<Rightarrow> u8 list \<Rightarrow> num_error + u8 list" where
  "windowLevelLoop windowMin windowMax i data =
     (if i < length data then
        (case newValue windowMin windowMax (sample (data ! i)) of
           Inl e \<Rightarrow> Inl e
         | Inr v \<Rightarrow>
             windowLevelLoop windowMin windowMax (i + 4)
               (data[i := toUint8Clamped v, i + 1 := toUint8Clamped v,
                     i + 2 := toUint8Clamped v]))
      else Inr data)"
  by pat_completeness auto
termination
  by (relation "measure (\<lambda>(windowMin, windowMax, i, data). length data - i)") auto

definition windowMinOf :: "jsnum \<Rightarrow> jsnum \<Rightarrow> jsnum" where
  "windowMinOf windowWidth windowLevel = js_sub windowLevel (ieee_div windowWidth (Fin 2))"

definition windowMaxOf :: "jsnum \<Rightarrow> jsnum \<Rightarrow> jsnum" where
  "windowMaxOf windowWidth windowLevel = js_add windowLevel (ieee_div windowWidth (Fin 2))"

definition applyWindowLevel :: "u8 list \<Rightarrow> jsnum \<Rightarrow> jsnum \<Rightarrow> num_error + u8 list" where
  "applyWindowLevel data windowWidth windowLevel =
     (let windowMin = windowMinOf windowWidth windowLevel;
          windowMax = windowMaxOf windowWidth windowLevel
      in windowLevelLoop windowMin windowMax 0 data)"

subsection \<open>Notions used in the properties\<close>

text \<open>
  The expression of the linear branch, with the division that cannot fail; the
  rationals that are doubles, and the values a \<open>number\<close> can have.
\<close>

definition windowed :: "jsnum \<Rightarrow> jsnum \<Rightarrow> jsnum \<Rightarrow> jsnum" where
  "windowed windowMin windowMax gray =
     Math_round (js_mul (ieee_div (js_sub gray windowMin) (js_sub windowMax windowMin)) (Fin 255))"

definition is_double :: "rat \<Rightarrow> bool" where
  "is_double r = (rnd r = r \<and> \<bar>r\<bar> < 2 ^ 1024)"

fun is_number :: "jsnum \<Rightarrow> bool" where
  "is_number (Fin r) = is_double r"
| "is_number a = True"

text \<open>
  The integer the linear branch yields from the rounded difference \<open>a\<close> of sample and
  \<open>windowMin\<close> and a finite width \<open>b\<close> of the window, and the same for a window with
  finite bounds \<open>m\<close> and \<open>M\<close>, whose difference may overflow.
\<close>

definition scaled :: "rat \<Rightarrow> rat \<Rightarrow> int" where
  "scaled a b = \<lfloor>rnd (rnd (a / b) * 255) + 1 / 2\<rfloor>"

definition linearValue :: "rat \<Rightarrow> rat \<Rightarrow> rat \<Rightarrow> int" where
  "linearValue m M x =
     (case js_sub (Fin M) (Fin m) of Fin b \<Rightarrow> scaled (rnd (x - m)) b | _ \<Rightarrow> 0)"

text \<open>
  Modelled from the spec: the transform in the words of the specification, on exact
  numbers, for one gray sample: 0 at or below \<open>windowLevel - windowWidth / 2\<close>, 255 at or
  above \<open>windowLevel + windowWidth / 2\<close>, and
  \<open>round ((gray - windowMin) / (windowMax - windowMin) * 255)\<close> in between.
\<close>

definition specValue :: "rat \<Rightarrow> rat \<Rightarrow> rat \<Rightarrow> int" where
  "specValue windowWidth windowLevel gray =
     (let windowMin = windowLevel - windowWidth / 2;
          windowMax = windowLevel + windowWidth / 2
      in if gray \<le> windowMin then 0
         else if gray \<ge> windowMax then 255
         else round ((gray - windowMin) / (windowMax - windowMin) * 255))"

section \<open>Application state store\<close>

text \<open>
  The repository carries the store twice: the single-select store of
  \<open>src/fe/src/context/DICOMContext.tsx\<close> (with \<open>isPlaying\<close> and \<open>playSpeed\<close>) and the
  per-cell grid store (with \<open>selectedSeriesForCells\<close>, \<open>cellWindowLevels\<close> and
  \<open>cellFrames\<close>). Their common fields are one record, which each store extends.
  A third copy of the grid store adds an upload percentage and is otherwise the grid
  store on every action modelled here.
  The fields of a frame are prefixed with \<open>frame_\<close>, those of a per-cell window with
  \<open>cell\<close>, to keep them apart from the state's fields and from bound names.
\<close>

record DICOMSeries =
  uid :: string
  series_desc :: string
  modality :: string
  patient_name :: string
  patient_id :: string
  study_desc :: string
  frame_count :: int
  examples :: "string list"

record DICOMFrame =
  frame_index :: int
  frame_data :: string
  frame_width :: int
  frame_height :: int

record DICOMSession =
  session_id :: string
  series :: "DICOMSeries list"
  invalid_files :: "string list"
  total_series :: int

record CellSeries =
  seriesUid :: string
  frameIndex :: int

record CellWindowLevel =
  cellWindowWidth :: real
  cellWindowLevel :: real

record DICOMStateCommon =
  session :: "DICOMSession option"
  selectedSeries :: "DICOMSeries option"
  frames :: "DICOMFrame list"
  currentFrameIndex :: int
  isLoading :: bool
  error :: "string option"
  windowWidth :: real
  windowLevel :: real
  gridSize :: int

record DICOMState = DICOMStateCommon +
  isPlaying :: bool
  playSpeed :: real

record DICOMStateCells = DICOMStateCommon +
  selectedSeriesForCells :: "int \<rightharpoonup> CellSeries"
  cellWindowLevels :: "int \<rightharpoonup> CellWindowLevel"
  cellFrames :: "int \<rightharpoonup> DICOMFrame list"

text \<open>
  The actions of both stores, in one type: each reducer ends in
  \<open>default: return state\<close>, which is where an action of the other store lands.
\<close>

datatype DICOMAction =
    SET_LOADING bool
  | SET_ERROR "string option"
  | SET_SESSION DICOMSession
  | SET_SELECTED_SERIES DICOMSeries
  | SET_FRAMES "DICOMFrame list"
  | SET_CURRENT_FRAME int
  | SET_WINDOW_WIDTH real
  | SET_WINDOW_LEVEL real
  | SET_GRID_SIZE int
  | SET_PLAYING bool
  | SET_PLAY_SPEED real
  | SET_CELL_SERIES int string int
  | SET_CELL_WINDOW_LEVEL int real real
  | SET_CELL_FRAMES int "DICOMFrame list"
  | NEXT_FRAME
  | PREV_FRAME
  | RESET_VIEW

subsection \<open>The single-select store\<close>

definition initialState :: DICOMState where
  "initialState =
     \<lparr> session = None, selectedSeries = None, frames = [], currentFrameIndex = 0,
       isLoading = False, error = None, windowWidth = 1, windowLevel = 1, gridSize = 1,
       isPlaying = False, playSpeed = 1 \<rparr>"

fun dicomReducer :: "DICOMState \<Rightarrow> DICOMAction \<Rightarrow> DICOMState" where
  "dicomReducer state (SET_LOADING payload) = state\<lparr>isLoading := payload\<rparr>"
| "dicomReducer state (SET_ERROR payload) = state\<lparr>error := payload, isLoading := False\<rparr>"
| "dicomReducer state (SET_SESSION payload) = state\<lparr>session := Some payload, error := None\<rparr>"
| "dicomReducer state (SET_SELECTED_SERIES payload) = state\<lparr>selectedSeries := Some payload\<rparr>"
| "dicomReducer state (SET_FRAMES payload) = state\<lparr>frames := payload, currentFrameIndex := 0\<rparr>"
| "dicomReducer state (SET_CURRENT_FRAME payload) =
     state\<lparr>currentFrameIndex := max 0 (min payload (int (length (frames state)) - 1))\<rparr>"
| "dicomReducer state (SET_WINDOW_WIDTH payload) = state\<lparr>windowWidth := payload\<rparr>"
| "dicomReducer state (SET_WINDOW_LEVEL payload) = state\<lparr>windowLevel := payload\<rparr>"
| "dicomReducer state (SET_GRID_SIZE payload) = state\<lparr>gridSize := max 1 (min 4 payload)\<rparr>"
| "dicomReducer state (SET_PLAYING payload) = state\<lparr>isPlaying := payload\<rparr>"
| "dicomReducer state (SET_PLAY_SPEED payload) =
     state\<lparr>playSpeed := max (1 / 10) (min 5 payload)\<rparr>"
| "dicomReducer state NEXT_FRAME =
     state\<lparr>currentFrameIndex :=
       min (currentFrameIndex state + 1) (int (length (frames state)) - 1)\<rparr>"
| "dicomReducer state PREV_FRAME =
     state\<lparr>currentFrameIndex := max (currentFrameIndex state - 1) 0\<rparr>"
| "dicomReducer state RESET_VIEW = state\<lparr>windowWidth := 1, windowLevel := 1\<rparr>"
| "dicomReducer state _ = state"

inductive reachable :: "DICOMState \<Rightarrow> bool" where
  reachable_init: "reachable initialState"
| reachable_step: "reachable state \<Longrightarrow> reachable (dicomReducer state action)"

subsection \<open>The per-cell grid store\<close>

definition defaultCellWindowLevel :: CellWindowLevel where
  "defaultCellWindowLevel = \<lparr> cellWindowWidth = 400, cellWindowLevel = 50 \<rparr>"

definition initialState_cells :: DICOMStateCells where
  "initialState_cells =
     \<lparr> session = None, selectedSeries = None, frames = [], currentFrameIndex = 0,
       isLoading = False, error = None, windowWidth = 400, windowLevel = 50, gridSize = 1,
       selectedSeriesForCells =
         [0 \<mapsto> \<lparr> seriesUid = '''', frameIndex = 0 \<rparr>,
          1 \<mapsto> \<lparr> seriesUid = '''', frameIndex = 0 \<rparr>,
          2 \<mapsto> \<lparr> seriesUid = '''', frameIndex = 0 \<rparr>,
          3 \<mapsto> \<lparr> seriesUid = '''', frameIndex = 0 \<rparr>],
       cellWindowLevels =
         [0 \<mapsto> \<lparr> cellWindowWidth = 400, cellWindowLevel = 50 \<rparr>,
          1 \<mapsto> \<lparr> cellWindowWidth = 400, cellWindowLevel = 50 \<rparr>,
          2 \<mapsto> \<lparr> cellWindowWidth = 400, cellWindowLevel = 50 \<rparr>,
          3 \<mapsto> \<lparr> cellWindowWidth = 400, cellWindowLevel = 50 \<rparr>],
       cellFrames = [0 \<mapsto> [], 1 \<mapsto> [], 2 \<mapsto> [], 3 \<mapsto> []] \<rparr>"

fun dicomReducer_cells :: "DICOMStateCells \<Rightarrow> DICOMAction \<Rightarrow> DICOMStateCells" where
  "dicomReducer_cells state (SET_LOADING payload) = state\<lparr>isLoading := payload\<rparr>"
| "dicomReducer_cells state (SET_ERROR payload) =
     state\<lparr>error := payload, isLoading := False\<rparr>"
| "dicomReducer_cells state (SET_SESSION payload) =
     state\<lparr>session := Some payload, error := None\<rparr>"
| "dicomReducer_cells state (SET_SELECTED_SERIES payload) =
     state\<lparr>selectedSeries := Some payload\<rparr>"
| "dicomReducer_cells state (SET_FRAMES payload) =
     state\<lparr>frames := payload, currentFrameIndex := 0\<rparr>"
| "dicomReducer_cells state (SET_CURRENT_FRAME payload) =
     state\<lparr>currentFrameIndex := max 0 (min payload (int (length (frames state)) - 1))\<rparr>"
| "dicomReducer_cells state (SET_WINDOW_WIDTH payload) = state\<lparr>windowWidth := payload\<rparr>"
| "dicomReducer_cells state (SET_WINDOW_LEVEL payload) = state\<lparr>windowLevel := payload\<rparr>"
| "dicomReducer_cells state (SET_GRID_SIZE payload) =
     state\<lparr>gridSize := max 1 (min 2 payload)\<rparr>"
| "dicomReducer_cells state (SET_CELL_SERIES cellIndex newUid newFrameIndex) =
     state\<lparr>selectedSeriesForCells :=
       (selectedSeriesForCells state)
         (cellIndex \<mapsto> \<lparr> seriesUid = newUid, frameIndex = newFrameIndex \<rparr>)\<rparr>"
| "dicomReducer_cells state (SET_CELL_WINDOW_LEVEL cellIndex ww wl) =
     state\<lparr>cellWindowLevels :=
       (cellWindowLevels state)
         (cellIndex \<mapsto> \<lparr> cellWindowWidth = ww, cellWindowLevel = wl \<rparr>)\<rparr>"
| "dicomReducer_cells state (SET_CELL_FRAMES cellIndex newFrames) =
     state\<lparr>cellFrames := (cellFrames state)(cellIndex \<mapsto> newFrames)\<rparr>"
| "dicomReducer_cells state NEXT_FRAME =
     state\<lparr>currentFrameIndex :=
       min (currentFrameIndex state + 1) (int (length (frames state)) - 1)\<rparr>"
| "dicomReducer_cells state PREV_FRAME =
     state\<lparr>currentFrameIndex := max (currentFrameIndex state - 1) 0\<rparr>"
| "dicomReducer_cells state RESET_VIEW =
     state\<lparr>windowWidth := 400, windowLevel := 50,
           cellWindowLevels :=
             [0 \<mapsto> \<lparr> cellWindowWidth = 400, cellWindowLevel = 50 \<rparr>,
              1 \<mapsto> \<lparr> cellWindowWidth = 400, cellWindowLevel = 50 \<rparr>,
              2 \<mapsto> \<lparr> cellWindowWidth = 400, cellWindowLevel = 50 \<rparr>,
              3 \<mapsto> \<lparr> cellWindowWidth = 400, cellWindowLevel = 50 \<rparr>]\<rparr>"
| "dicomReducer_cells state _ = state"

section \<open>Playback controller\<close>

text \<open>
  \<^verbatim>\<open>
  useEffect(() => {
    if (!isPlaying || frames.length === 0) return;
    const interval = setInterval(() => {
      const nextIndex = (currentFrameIndex + 1) % frames.length;
      onFrameChange(nextIndex);
    }, 1000 / playSpeed);
    return () => clearInterval(interval);
  }, [isPlaying, currentFrameIndex, frames.length, playSpeed]);
  \<close>
  The effect is re-run whenever one of its dependencies changes, so the timer that fires
  always holds the current index and frame list. \<open>autoPlayNextIndex\<close> is what one
  period of the timer passes to \<open>onFrameChange\<close>: nothing when the effect returned
  before setting a timer. JavaScript's \<open>%\<close> takes the sign of the dividend
  (\<open>smod\<close> on \<^typ>\<open>int\<close>); the guard keeps its divisor away from 0.
  The page binds \<open>onFrameChange\<close> to a dispatch of \<open>SET_CURRENT_FRAME\<close>.
\<close>

definition autoPlayNextIndex :: "bool \<Rightarrow> int \<Rightarrow> DICOMFrame list \<Rightarrow> int option" where
  "autoPlayNextIndex playing current frameList =
     (if \<not> playing \<or> length frameList = 0 then None
      else Some ((current + 1) smod int (length frameList)))"

definition onFrameChange :: "DICOMState \<Rightarrow> int \<Rightarrow> DICOMState" where
  "onFrameChange state index = dicomReducer state (SET_CURRENT_FRAME index)"

definition playbackTick :: "DICOMState \<Rightarrow> DICOMState" where
  "playbackTick state =
     (case autoPlayNextIndex (isPlaying state) (currentFrameIndex state) (frames state) of
        None \<Rightarrow> state
      | Some nextIndex \<Rightarrow> onFrameChange state nextIndex)"

section \<open>Compositing onto a canvas\<close>

text \<open>
  \<open>loadAndDisplayImage\<close> creates an \<open>Image\<close>, installs \<open>onload\<close> and \<open>onerror\<close> and
  sets \<open>src\<close>; the decode completes later, as an event. JavaScript runs one handler at a
  time, to its end, so a run of the viewer is the list of its completions in the order
  in which they happen. A request is what the handler closes over.

  \<open>onload\<close> sizes the canvas, fills all of it with black, draws the image centred and,
  under \<open>if (ww && wl)\<close>, applies the window/level transform to the drawn region.
  Nothing of the previous content survives and nothing in the handler tells whether a
  newer request exists, so the content of a canvas after \<open>onload\<close> is a function of the
  request alone: the image and the window the transform was applied with.
  \<open>onerror\<close> records an error and leaves the canvas as it is.
  The single viewer's \<open>loadAndDisplayImage\<close> returns at once when its canvas is not
  mounted; the grid viewers' copies take the canvas as an argument and are the same
  function with the canvas present.
\<close>

record CompositeRequest =
  req_url :: string
  req_ww :: "real option"
  req_wl :: "real option"

datatype canvas = Blank | Composite string "(real \<times> real) option"

datatype decode = Loaded | Failed

definition truthy :: "real option \<Rightarrow> bool" where
  "truthy x = (case x of None \<Rightarrow> False | Some v \<Rightarrow> v \<noteq> 0)"

definition loadAndDisplayImage ::
    "bool \<Rightarrow> string \<Rightarrow> real option \<Rightarrow> real option \<Rightarrow> CompositeRequest option" where
  "loadAndDisplayImage canvasMounted imageDataUrl ww wl =
     (if \<not> canvasMounted then None
      else Some \<lparr> req_url = imageDataUrl, req_ww = ww, req_wl = wl \<rparr>)"

definition onload :: "CompositeRequest \<Rightarrow> canvas \<Rightarrow> canvas" where
  "onload req c =
     Composite (req_url req)
       (case (req_ww req, req_wl req) of
          (Some ww, Some wl) \<Rightarrow>
            if truthy (Some ww) \<and> truthy (Some wl) then Some (ww, wl) else None
        | _ \<Rightarrow> None)"

fun complete :: "canvas \<Rightarrow> CompositeRequest \<times> decode \<Rightarrow> canvas" where
  "complete c (req, Loaded) = onload req c"
| "complete c (req, Failed) = c"

definition runCompletions :: "canvas \<Rightarrow> (CompositeRequest \<times> decode) list \<Rightarrow> canvas" where
  "runCompletions c completions = foldl complete c completions"

section \<open>Grid viewer with uniform windowing\<close>

text \<open>
  An array read outside the array is \<open>undefined\<close>; here \<open>None\<close>.
  The component renders a canvas into cell \<open>i\<close> when \<open>frames[currentFrameIndex + i]\<close> is
  defined, keeps the data URLs of the frames in \<open>imageIds\<close> (an effect that does nothing
  for an empty frame list) and, in a second effect, loops over the cells:
  \<^verbatim>\<open>
  for (let i = 0; i < totalCells; i++) {
    const frameIndex = currentFrameIndex + i;
    const canvas = canvasRefs.current[i];
    if (frameIndex < frames.length && canvas) {
      const imageDataUrl = imageIds[frameIndex];
      if (imageDataUrl) { loadPromises.push(loadAndDisplayImage(imageDataUrl, canvas, ...)) }
    }
  }
  \<close>
\<close>

definition js_nth :: "'a list \<Rightarrow> int \<Rightarrow> 'a option" where
  "js_nth xs k = (if 0 \<le> k \<and> k < int (length xs) then Some (xs ! nat k) else None)"

definition dataUrl :: "DICOMFrame \<Rightarrow> string" where
  "dataUrl frame = ''data:image/png;base64,'' @ frame_data frame"

definition totalCells :: "int \<Rightarrow> nat" where
  "totalCells gsize = nat (gsize * gsize)"

definition convertFrames :: "DICOMFrame list \<Rightarrow> string list \<Rightarrow> string list" where
  "convertFrames frameList imageIds =
     (if length frameList = 0 then imageIds else map dataUrl frameList)"

definition renderCanvases :: "int \<Rightarrow> int \<Rightarrow> DICOMFrame list \<Rightarrow> bool list" where
  "renderCanvases gsize current frameList =
     map (\<lambda>i. case js_nth frameList (current + int i) of None \<Rightarrow> False | Some frame \<Rightarrow> True)
       [0..<totalCells gsize]"

definition canvasAt :: "bool list \<Rightarrow> nat \<Rightarrow> bool" where
  "canvasAt canvasRefs i = (i < length canvasRefs \<and> canvasRefs ! i)"

definition loadGridImages ::
    "DICOMFrame list \<Rightarrow> int \<Rightarrow> string list \<Rightarrow> int \<Rightarrow> bool list \<Rightarrow> real \<Rightarrow> real \<Rightarrow>
     (nat \<times> CompositeRequest) list" where
  "loadGridImages frameList current imageIds gsize canvasRefs ww wl =
     (if length imageIds = 0 \<or> length frameList = 0 then []
      else concat (map
        (\<lambda>i. let frameIndex = current + int i in
           if frameIndex < int (length frameList) \<and> canvasAt canvasRefs i then
             (case js_nth imageIds frameIndex of
                None \<Rightarrow> []
              | Some imageDataUrl \<Rightarrow>
                  if imageDataUrl \<noteq> [] then
                    (case loadAndDisplayImage True imageDataUrl (Some ww) (Some wl) of
                       None \<Rightarrow> [] | Some req \<Rightarrow> [(i, req)])
                  else [])
           else [])
        [0..<totalCells gsize]))"

text \<open>
  \<open>updateAllImages\<close> is the same loop without the guard on empty lists and without the
  delay; the effect on the window runs it under \<open>if (windowWidth && windowLevel)\<close>.
\<close>

definition updateAllImages ::
    "int \<Rightarrow> DICOMFrame list \<Rightarrow> string list \<Rightarrow> int \<Rightarrow> bool list \<Rightarrow> real \<Rightarrow> real \<Rightarrow>
     (nat \<times> CompositeRequest) list" where
  "updateAllImages current frameList imageIds gsize canvasRefs ww wl =
     concat (map
       (\<lambda>i. let frameIndex = current + int i in
          if frameIndex < int (length frameList) \<and> canvasAt canvasRefs i then
            (case js_nth imageIds frameIndex of
               None \<Rightarrow> []
             | Some imageDataUrl \<Rightarrow>
                 if imageDataUrl \<noteq> [] then
                   (case loadAndDisplayImage True imageDataUrl (Some ww) (Some wl) of
                      None \<Rightarrow> [] | Some req \<Rightarrow> [(i, req)])
                 else [])
          else [])
       [0..<totalCells gsize])"

definition windowLevelEffect ::
    "int \<Rightarrow> DICOMFrame list \<Rightarrow> string list \<Rightarrow> int \<Rightarrow> bool list \<Rightarrow> real \<Rightarrow> real \<Rightarrow>
     (nat \<times> CompositeRequest) list" where
  "windowLevelEffect current frameList imageIds gsize canvasRefs ww wl =
     (if truthy (Some ww) \<and> truthy (Some wl)
      then updateAllImages current frameList imageIds gsize canvasRefs ww wl else [])"

text \<open>
  The component over one change of its props. \<open>imageIds\<close> is state of the component:
  the render that follows a change of \<open>frames\<close> still closes over the image ids of
  the frames before, and the new ids arrive with a second render, which
  \<open>setImageIds\<close> asks for. After a render is committed React runs, in the order of the
  text, the effects of which a dependency has changed:
  \<^item> the conversion (dependency \<open>frames\<close>, compared as an object), which calls
    \<open>setImageIds\<close> unless the frame list is empty;
  \<^item> the load effect (dependencies \<open>currentFrameIndex\<close>, \<open>frames.length\<close>, \<open>imageIds\<close>,
    \<open>gridSize\<close>, \<open>windowWidth\<close>, \<open>windowLevel\<close>), whose loop runs 100 ms later;
  \<^item> the effect on the window (dependencies \<open>windowWidth\<close>, \<open>windowLevel\<close> and
    \<open>updateAllImages\<close>, which is made anew when \<open>currentFrameIndex\<close>, \<open>frames.length\<close>,
    \<open>imageIds\<close> or \<open>gridSize\<close> change), whose loop runs at once.
  The last two have the same dependencies in effect (\<open>depsChanged\<close>); everything has
  changed at the first render, where there are no props before (\<open>None\<close>). The props
  carry the prefix \<open>gv_\<close>, to keep them apart from the fields of the store.

  \<open>commitEffects\<close> is one commit: the composites asked for at once and those asked for
  after the delay. \<open>gridViewer\<close> is the change of props: the commit on the image ids
  before and, if \<open>setImageIds\<close> was called, the commit on the new ones; it returns the
  image ids at the end and the composites in the order of issue, those of the two loops
  that run at once before those of the two delayed loops. Both delayed loops find the
  canvases of the last render, which are those of the first, the props being the same.
  Resizing the window and the imperative handle run \<open>updateAllImages\<close> once more; they
  are events of their own and not part of a change of props.
\<close>

record GridViewerProps =
  gv_frames :: "DICOMFrame list"
  gv_currentFrameIndex :: int
  gv_windowWidth :: real
  gv_windowLevel :: real
  gv_gridSize :: int

definition depsChanged :: "GridViewerProps option \<Rightarrow> GridViewerProps \<Rightarrow> bool" where
  "depsChanged prev props =
     (case prev of
        None \<Rightarrow> True
      | Some old \<Rightarrow>
          gv_currentFrameIndex old \<noteq> gv_currentFrameIndex props \<or>
          length (gv_frames old) \<noteq> length (gv_frames props) \<or>
          gv_gridSize old \<noteq> gv_gridSize props \<or>
          gv_windowWidth old \<noteq> gv_windowWidth props \<or>
          gv_windowLevel old \<noteq> gv_windowLevel props)"

text \<open>
  \<open>frames\<close> has changed when it is another array, which it is for certain when its
  content differs; \<open>newArray\<close> says that it is another array of the same content.
\<close>

definition framesChanged :: "GridViewerProps option \<Rightarrow> bool \<Rightarrow> GridViewerProps \<Rightarrow> bool" where
  "framesChanged prev newArray props =
     (case prev of None \<Rightarrow> True | Some old \<Rightarrow> newArray \<or> gv_frames old \<noteq> gv_frames props)"

definition commitEffects ::
    "bool \<Rightarrow> GridViewerProps \<Rightarrow> string list \<Rightarrow>
     (nat \<times> CompositeRequest) list \<times> (nat \<times> CompositeRequest) list" where
  "commitEffects fire props imageIds =
     (if fire then
        (let canvasRefs = renderCanvases (gv_gridSize props) (gv_currentFrameIndex props) (gv_frames props)
         in (windowLevelEffect (gv_currentFrameIndex props) (gv_frames props) imageIds
               (gv_gridSize props) canvasRefs (gv_windowWidth props) (gv_windowLevel props),
             loadGridImages (gv_frames props) (gv_currentFrameIndex props) imageIds
               (gv_gridSize props) canvasRefs (gv_windowWidth props) (gv_windowLevel props)))
      else ([], []))"

definition gridViewer ::
    "GridViewerProps option \<Rightarrow> bool \<Rightarrow> string list \<Rightarrow> GridViewerProps \<Rightarrow>
     string list \<times> (nat \<times> CompositeRequest) list" where
  "gridViewer prev newArray imageIds props =
     (let convert = framesChanged prev newArray props;
          newImageIds = (if convert then convertFrames (gv_frames props) imageIds else imageIds);
          first = commitEffects (depsChanged prev props) props imageIds;
          second = commitEffects (convert \<and> length (gv_frames props) \<noteq> 0) props newImageIds
      in (newImageIds, fst first @ fst second @ snd first @ snd second))"

text \<open>
  The requests issued for one cell, in the order of issue; what a cell shows once the
  decodes in \<open>completions\<close> have completed in that order, on a canvas that showed
  \<open>before\<close> (a cell without a canvas shows nothing); and the run in which every decode
  succeeds and the decodes complete in the order of issue.
\<close>

definition cellRequests :: "(nat \<times> CompositeRequest) list \<Rightarrow> nat \<Rightarrow> CompositeRequest list" where
  "cellRequests issued i = map snd (filter (\<lambda>x. fst x = i) issued)"

definition cellDisplay ::
    "bool list \<Rightarrow> canvas \<Rightarrow> (nat \<times> CompositeRequest \<times> decode) list \<Rightarrow> nat \<Rightarrow> canvas" where
  "cellDisplay canvasRefs before completions i =
     (if canvasAt canvasRefs i
      then runCompletions before (map snd (filter (\<lambda>x. fst x = i) completions))
      else Blank)"

definition inOrder :: "(nat \<times> CompositeRequest) list \<Rightarrow> (nat \<times> CompositeRequest \<times> decode) list" where
  "inOrder issued = map (\<lambda>x. (fst x, snd x, Loaded)) issued"

text \<open>
  What a change of props relies on: the image ids the component holds are those of the
  frames it was last given, unless that list was empty.
\<close>

definition idsInStep :: "GridViewerProps option \<Rightarrow> string list \<Rightarrow> bool" where
  "idsInStep prev imageIds =
     (case prev of
        None \<Rightarrow> True
      | Some old \<Rightarrow> gv_frames old \<noteq> [] \<longrightarrow> imageIds = map dataUrl (gv_frames old))"

section \<open>Grid viewer with per-cell assignment\<close>

text \<open>
  \<open>loadSeriesForCell\<close> is the one writer of a cell's series and frame buffer:
  \<^verbatim>\<open>
  if (!state.session) return;
  try {
    const response = await axios.get(`${API_BASE_URL}/api/series/${session_id}/${seriesUid}`);
    dispatch({ type: 'SET_CELL_SERIES', payload: { cellIndex, seriesUid, frameIndex } });
    dispatch({ type: 'SET_CELL_FRAMES', payload: { cellIndex, frames: response.data.frames } });
  } catch (error) { console.error(...) }
  \<close>
  The fetch is an event as well: the model takes its outcome so far and returns the
  request that went out and the actions dispatched up to now.
\<close>

datatype 'a fetch = Pending | Rejected | Resolved 'a

definition loadSeriesForCell ::
    "DICOMSession option \<Rightarrow> DICOMFrame list fetch \<Rightarrow> int \<Rightarrow> string \<Rightarrow> int \<Rightarrow>
     (string \<times> string) option \<times> DICOMAction list" where
  "loadSeriesForCell currentSession response cellIndex newUid newFrameIndex =
     (case currentSession of
        None \<Rightarrow> (None, [])
      | Some s \<Rightarrow>
          (Some (session_id s, newUid),
           case response of
             Pending \<Rightarrow> []
           | Rejected \<Rightarrow> []
           | Resolved newFrames \<Rightarrow>
               [SET_CELL_SERIES cellIndex newUid newFrameIndex,
                SET_CELL_FRAMES cellIndex newFrames]))"

definition dispatchAll :: "DICOMStateCells \<Rightarrow> DICOMAction list \<Rightarrow> DICOMStateCells" where
  "dispatchAll state actions = foldl dicomReducer_cells state actions"

text \<open>
  \<open>GridControls.handleSeriesChange\<close>, the handler of a cell's series selector:
  \<open>onSeriesChange(cellIndex, seriesUid, 0)\<close>.
\<close>

definition handleSeriesChange :: "(int \<Rightarrow> string \<Rightarrow> int \<Rightarrow> 'r) \<Rightarrow> int \<Rightarrow> string \<Rightarrow> 'r" where
  "handleSeriesChange onSeriesChange cellIndex newUid = onSeriesChange cellIndex newUid 0"

text \<open>
  Modelled from the spec: the page component that hands \<open>onSeriesChange\<close> to
  \<open>GridControls\<close> is not among the sources. Section 4.5 of the specification has the
  reassignment of a cell's series fetch that series' frame buffer, which in the store is
  \<open>loadSeriesForCell\<close>; \<open>reassignCell\<close> is the state after the selector changed and the
  fetch got as far as \<open>response\<close>.
\<close>

definition reassignCell ::
    "DICOMStateCells \<Rightarrow> DICOMFrame list fetch \<Rightarrow> int \<Rightarrow> string \<Rightarrow> DICOMStateCells" where
  "reassignCell state response cellIndex newUid =
     dispatchAll state
       (snd (handleSeriesChange (loadSeriesForCell (session state) response) cellIndex newUid))"

text \<open>
  The per-cell viewer renders a canvas into cell \<open>i\<close> for
  \<^verbatim>\<open>
  const cellSeries = selectedSeriesForCells[i];
  const cellFrameData = cellFrames[i] || [];
  const frameIndex = cellSeries?.frameIndex || 0;
  const frame = frameIndex < cellFrameData.length ? cellFrameData[frameIndex] : null;
  ... {frame && cellSeries?.seriesUid && (<Canvas .../>)}
  \<close>
  and its loop composites, into the canvas of a cell that has one,
  \<^verbatim>\<open>
  if (cellSeries && cellSeries.seriesUid && cellFrameData.length > 0 && canvas) {
    const frameIndex = cellSeries.frameIndex || 0;
    if (frameIndex < cellFrameData.length) {
      const frame = cellFrameData[frameIndex];
      const imageDataUrl = `data:image/png;base64,${frame.data}`;
      const cellWL = cellWindowLevels[i] || { windowWidth: 400, windowLevel: 50 };
      loadPromises.push(loadAndDisplayImage(imageDataUrl, canvas, cellWL.windowWidth, cellWL.windowLevel))
    }
  }
  \<close>
  Reading \<open>frame.data\<close> of an undefined frame throws a \<open>TypeError\<close>.
\<close>

datatype js_error = TypeError

definition cellFrameData :: "(int \<rightharpoonup> DICOMFrame list) \<Rightarrow> nat \<Rightarrow> DICOMFrame list" where
  "cellFrameData cellFrameMap i = (case cellFrameMap (int i) of None \<Rightarrow> [] | Some fs \<Rightarrow> fs)"

definition renderedFrame ::
    "(int \<rightharpoonup> CellSeries) \<Rightarrow> (int \<rightharpoonup> DICOMFrame list) \<Rightarrow> nat \<Rightarrow> DICOMFrame option" where
  "renderedFrame selected cellFrameMap i =
     (let cellSeries = selected (int i);
          frameData = cellFrameData cellFrameMap i;
          fi = (case cellSeries of None \<Rightarrow> 0 | Some c \<Rightarrow> frameIndex c);
          frame = (if fi < int (length frameData) then js_nth frameData fi else None)
      in case frame of
           None \<Rightarrow> None
         | Some f \<Rightarrow>
             (case cellSeries of
                None \<Rightarrow> None
              | Some c \<Rightarrow> if seriesUid c \<noteq> [] then Some f else None))"

definition loadCellImage ::
    "(int \<rightharpoonup> CellSeries) \<Rightarrow> (int \<rightharpoonup> DICOMFrame list) \<Rightarrow> (int \<rightharpoonup> CellWindowLevel) \<Rightarrow>
     bool \<Rightarrow> nat \<Rightarrow> js_error + CompositeRequest option" where
  "loadCellImage selected cellFrameMap cellWLs canvas i =
     (case selected (int i) of
        None \<Rightarrow> Inr None
      | Some cellSeries \<Rightarrow>
          let frameData = cellFrameData cellFrameMap i in
          if seriesUid cellSeries \<noteq> [] \<and> length frameData > 0 \<and> canvas then
            (let fi = frameIndex cellSeries in
             if fi < int (length frameData) then
               (case js_nth frameData fi of
                  None \<Rightarrow> Inl TypeError
                | Some frame \<Rightarrow>
                    (let cellWL = (case cellWLs (int i) of
                                     None \<Rightarrow> defaultCellWindowLevel | Some w \<Rightarrow> w)
                     in Inr (loadAndDisplayImage True (dataUrl frame)
                               (Some (cellWindowWidth cellWL)) (Some (cellWindowLevel cellWL)))))
             else Inr None)
          else Inr None)"

text \<open>
  Both the render (\<open>Array.from({ length: totalCells }, ...)\<close>) and the loops
  (\<open>for (let i = 0; i < totalCells; i++)\<close>, with \<open>totalCells = gridSize * gridSize\<close>) stop
  at the cells of the grid: a cell past them has no canvas and is not looked at, whatever
  the store holds for its index. \<open>cellCanvas\<close> is the canvas of the render and
  \<open>cellComposite\<close> what the loop then asks for. \<open>loadSeriesForCell\<close> dispatches its two
  actions one after the other without yielding, and React renders once for both, so the
  viewer sees the state after both.
\<close>

definition cellCanvas :: "DICOMStateCells \<Rightarrow> nat \<Rightarrow> bool" where
  "cellCanvas state i =
     (i < totalCells (gridSize state) \<and>
      (case renderedFrame (selectedSeriesForCells state) (cellFrames state) i of
         None \<Rightarrow> False | Some frame \<Rightarrow> True))"

definition cellComposite :: "DICOMStateCells \<Rightarrow> nat \<Rightarrow> js_error + CompositeRequest option" where
  "cellComposite state i =
     (if i < totalCells (gridSize state) then
        loadCellImage (selectedSeriesForCells state) (cellFrames state) (cellWindowLevels state)
          (cellCanvas state i) i
      else Inr None)"

section \<open>The frame-index invariant and sample inputs\<close>

text \<open>
  The bound the specification puts on \<open>currentFrameIndex\<close>, in its words: at least 0,
  at most \<open>frames.length - 1\<close> for a non-empty frame list, and 0 for an empty one.
\<close>

definition frameIndexInBounds :: "'a DICOMStateCommon_scheme \<Rightarrow> bool" where
  "frameIndexInBounds state =
     (0 \<le> currentFrameIndex state \<and>
      (if frames state = [] then currentFrameIndex state = 0
       else currentFrameIndex state \<le> int (length (frames state)) - 1))"

text \<open>Concrete frames, states and requests, for the instances below.\<close>

definition tenFrames :: "DICOMFrame list" where
  "tenFrames = replicate 10 \<lparr> frame_index = 0, frame_data = ''iVBORw0KGgo='', frame_width = 512, frame_height = 512 \<rparr>"

definition threeFrames :: "DICOMFrame list" where
  "threeFrames =
     [\<lparr> frame_index = 0, frame_data = ''AAAA'', frame_width = 2, frame_height = 2 \<rparr>,
      \<lparr> frame_index = 1, frame_data = ''BBBB'', frame_width = 2, frame_height = 2 \<rparr>,
      \<lparr> frame_index = 2, frame_data = ''CCCC'', frame_width = 2, frame_height = 2 \<rparr>]"

definition playingAtLastOfFive :: DICOMState where
  "playingAtLastOfFive =
     dicomReducer
       (dicomReducer (dicomReducer initialState (SET_FRAMES (take 5 tenFrames))) (SET_PLAYING True))
       (SET_CURRENT_FRAME 4)"

definition seriesAFrames :: "DICOMFrame list" where
  "seriesAFrames =
     [\<lparr> frame_index = 0, frame_data = ''A000'', frame_width = 2, frame_height = 2 \<rparr>,
      \<lparr> frame_index = 1, frame_data = ''A111'', frame_width = 2, frame_height = 2 \<rparr>]"

definition sampleSession :: DICOMSession where
  "sampleSession =
     \<lparr> session_id = ''s1'', series = [], invalid_files = [], total_series = 2 \<rparr>"

definition cellZeroOnSeriesA :: DICOMStateCells where
  "cellZeroOnSeriesA =
     dispatchAll initialState_cells
       [SET_SESSION sampleSession, SET_CELL_SERIES 0 ''seriesA'' 1, SET_CELL_FRAMES 0 seriesAFrames]"

definition firstRequest :: CompositeRequest where
  "firstRequest = \<lparr> req_url = ''data:image/png;base64,AAAA'', req_ww = Some 400, req_wl = Some 50 \<rparr>"

definition secondRequest :: CompositeRequest where
  "secondRequest = \<lparr> req_url = ''data:image/png;base64,AAAA'', req_ww = Some 200, req_wl = Some 30 \<rparr>"

definition seriesAProps :: GridViewerProps where
  "seriesAProps =
     \<lparr> gv_frames = seriesAFrames, gv_currentFrameIndex = 0, gv_windowWidth = 400,
       gv_windowLevel = 50, gv_gridSize = 1 \<rparr>"

definition seriesBProps :: GridViewerProps where
  "seriesBProps =
     \<lparr> gv_frames = [\<lparr> frame_index = 0, frame_data = ''B000'', frame_width = 2, frame_height = 2 \<rparr>],
       gv_currentFrameIndex = 0, gv_windowWidth = 400, gv_windowLevel = 50, gv_gridSize = 1 \<rparr>"

definition threeFramesProps :: GridViewerProps where
  "threeFramesProps =
     \<lparr> gv_frames = threeFrames, gv_currentFrameIndex = 1, gv_windowWidth = 400,
       gv_windowLevel = 50, gv_gridSize = 2 \<rparr>"

section \<open>Properties of rounding\<close>

subsection \<open>Powers of two and the binary exponent\<close>

lemma pow2_less_iff: "(2::rat) powi m < 2 powi n \<longleftrightarrow> m < n"
proof
  assume a: "(2::rat) powi m < 2 powi n"
  show "m < n"
  proof (rule ccontr)
    assume "\<not> m < n"
    then have "n \<le> m" by simp
    then have "(2::rat) powi n \<le> 2 powi m" by (rule power_int_increasing) simp
    with a show False by simp
  qed
next
  assume "m < n"
  then show "(2::rat) powi m < 2 powi n" by (rule power_int_strict_increasing) simp
qed

lemma pow2_le_iff: "(2::rat) powi m \<le> 2 powi n \<longleftrightarrow> m \<le> n"
  using pow2_less_iff[of n m] by (auto simp: not_less[symmetric])

lemma pow2_pos: "(0::rat) < 2 powi k"
  by simp

lemma floor_log2_bounds:
  assumes "0 < x"
  shows "2 powi (floor_log2 x) \<le> x \<and> x < 2 powi (floor_log2 x + 1)"
proof -
  obtain a b where q: "quotient_of x = (a, b)" by force
  have b: "0 < b" using quotient_of_denom_pos[OF q] .
  have x: "x = of_int a / of_int b" using quotient_of_div[OF q] .
  with assms b have a: "0 < a" by (simp add: zero_less_divide_iff)
  define la where "la = bitlen a"
  define lb where "lb = bitlen b"
  from bitlen_bounds[OF a] have a1: "(2::int) ^ nat (la - 1) \<le> a" and a2: "a < 2 ^ nat la"
    by (simp_all add: la_def)
  from bitlen_bounds[OF b] have b1: "(2::int) ^ nat (lb - 1) \<le> b" and b2: "b < 2 ^ nat lb"
    by (simp_all add: lb_def)
  have la: "1 \<le> la" using a by (simp add: la_def bitlen_alt_def)
  have lb: "1 \<le> lb" using b by (simp add: lb_def bitlen_alt_def)
  have ra1: "(2::rat) powi (la - 1) \<le> of_int a"
  proof -
    have "(of_int ((2::int) ^ nat (la - 1)) :: rat) \<le> of_int a" using a1 by (simp only: of_int_le_iff)
    then show ?thesis using la by (simp add: power_int_def)
  qed
  have ra2: "of_int a < (2::rat) powi la"
  proof -
    have "(of_int a :: rat) < of_int ((2::int) ^ nat la)" using a2 by (simp only: of_int_less_iff)
    then show ?thesis using la by (simp add: power_int_def)
  qed
  have rb1: "(2::rat) powi (lb - 1) \<le> of_int b"
  proof -
    have "(of_int ((2::int) ^ nat (lb - 1)) :: rat) \<le> of_int b" using b1 by (simp only: of_int_le_iff)
    then show ?thesis using lb by (simp add: power_int_def)
  qed
  have rb2: "of_int b < (2::rat) powi lb"
  proof -
    have "(of_int b :: rat) < of_int ((2::int) ^ nat lb)" using b2 by (simp only: of_int_less_iff)
    then show ?thesis using lb by (simp add: power_int_def)
  qed
  have bpos: "(0::rat) < of_int b" using b by simp
  have p: "\<And>k. (0::rat) < 2 powi k" by simp
  have up: "x < 2 powi (la - lb + 1)"
  proof -
    have "of_int a * (2::rat) powi (lb - 1) < 2 powi la * of_int b"
    proof -
      have "of_int a * (2::rat) powi (lb - 1) < 2 powi la * 2 powi (lb - 1)"
        using ra2 p[of "lb - 1"] by (rule mult_strict_right_mono)
      also have "\<dots> \<le> 2 powi la * of_int b"
        using rb1 by (rule mult_left_mono) simp
      finally show ?thesis .
    qed
    then have "x * 2 powi (lb - 1) < 2 powi la"
      using bpos by (simp add: x field_simps)
    then have "x < 2 powi la / 2 powi (lb - 1)"
      using p[of "lb - 1"] by (simp add: field_simps)
    also have "\<dots> = 2 powi (la - (lb - 1))" by (simp add: power_int_diff)
    finally show ?thesis by (simp add: algebra_simps)
  qed
  have lo: "2 powi (la - lb - 1) \<le> x"
  proof -
    have "(2::rat) powi (la - 1) * of_int b \<le> of_int a * 2 powi lb"
    proof (rule mult_mono)
      show "(2::rat) powi (la - 1) \<le> of_int a" by (rule ra1)
      show "(of_int b :: rat) \<le> 2 powi lb" using rb2 by simp
      show "(0::rat) \<le> of_int a" using a by simp
      show "(0::rat) \<le> of_int b" using b by simp
    qed
    then have "2 powi (la - 1) / 2 powi lb \<le> x"
      using bpos p[of lb] by (simp add: x field_simps)
    moreover have "(2::rat) powi (la - 1) / 2 powi lb = 2 powi (la - 1 - lb)"
      by (simp add: power_int_diff)
    ultimately show ?thesis by (simp add: algebra_simps)
  qed
  have fl: "floor_log2 x = (if 2 powi (la - lb) \<le> x then la - lb else la - lb - 1)"
    by (simp add: floor_log2_def q la_def lb_def Let_def)
  show ?thesis
  proof (cases "2 powi (la - lb) \<le> x")
    case True
    with fl up show ?thesis by simp
  next
    case False
    with fl lo show ?thesis by simp
  qed
qed

lemma floor_log2_unique:
  assumes "0 < x" "2 powi e \<le> x" "x < 2 powi (e + 1)"
  shows "floor_log2 x = e"
proof -
  from floor_log2_bounds[OF assms(1)]
  have a: "2 powi (floor_log2 x) \<le> x" and b: "x < 2 powi (floor_log2 x + 1)" by blast+
  have "(2::rat) powi e < 2 powi (floor_log2 x + 1)" using assms(2) b by simp
  then have 1: "e < floor_log2 x + 1" by (simp add: pow2_less_iff)
  have "(2::rat) powi (floor_log2 x) < 2 powi (e + 1)" using assms(3) a by simp
  then have 2: "floor_log2 x < e + 1" by (simp add: pow2_less_iff)
  from 1 2 show ?thesis by simp
qed

subsection \<open>Unit in the last place\<close>

lemma ulp_exp_ge: "- 1074 \<le> ulp_exp x"
  by (simp add: ulp_exp_def max_def)

lemma ulp_exp_upper:
  assumes "x \<noteq> 0"
  shows "\<bar>x\<bar> < 2 powi (ulp_exp x + 53)"
proof -
  from assms have pos: "0 < \<bar>x\<bar>" by simp
  from floor_log2_bounds[OF pos] have "\<bar>x\<bar> < 2 powi (floor_log2 \<bar>x\<bar> + 1)" by blast
  also have "\<dots> \<le> 2 powi (max (floor_log2 \<bar>x\<bar>) (- 1022) + 1)"
    by (simp add: pow2_le_iff)
  finally show ?thesis using assms by (simp add: ulp_exp_def algebra_simps)
qed

lemma ulp_exp_lower:
  assumes "- 1074 < ulp_exp x"
  shows "2 powi (ulp_exp x + 52) \<le> \<bar>x\<bar>"
proof -
  from assms have nz: "x \<noteq> 0" by (auto simp: ulp_exp_def)
  then have pos: "0 < \<bar>x\<bar>" by simp
  from assms nz have "ulp_exp x = floor_log2 \<bar>x\<bar> - 52"
    by (simp add: ulp_exp_def max_def split: if_splits)
  with floor_log2_bounds[OF pos] show ?thesis by simp
qed

lemma ulp_exp_mono:
  assumes "\<bar>x\<bar> \<le> \<bar>y\<bar>"
  shows "ulp_exp x \<le> ulp_exp y"
proof (rule ccontr)
  assume "\<not> ulp_exp x \<le> ulp_exp y"
  then have gt: "ulp_exp y < ulp_exp x" by simp
  with ulp_exp_ge[of y] have "- 1074 < ulp_exp x" by simp
  from ulp_exp_lower[OF this] have lo: "2 powi (ulp_exp x + 52) \<le> \<bar>x\<bar>" .
  have "0 < \<bar>x\<bar>" using lo pow2_pos[of "ulp_exp x + 52"] by linarith
  with assms have "y \<noteq> 0" by auto
  from ulp_exp_upper[OF this] have "\<bar>y\<bar> < 2 powi (ulp_exp y + 53)" .
  also have "\<dots> \<le> 2 powi (ulp_exp x + 52)" using gt by (simp add: pow2_le_iff)
  finally show False using lo assms by simp
qed

lemma ulp_exp_minus [simp]: "ulp_exp (- x) = ulp_exp x"
  by (simp add: ulp_exp_def)

subsection \<open>Rounding to an integer, halves to even\<close>

lemma rne_of_int [simp]: "rne (of_int n) = n"
  by (simp add: rne_def)

lemma rne_mono:
  assumes "x \<le> y"
  shows "rne x \<le> rne y"
proof (cases "\<lfloor>x\<rfloor> = \<lfloor>y\<rfloor>")
  case True
  with assms show ?thesis by (auto simp: rne_def Let_def)
next
  case False
  with assms have "\<lfloor>x\<rfloor> < \<lfloor>y\<rfloor>" using floor_mono[OF assms] by simp
  then have "\<lfloor>x\<rfloor> + 1 \<le> \<lfloor>y\<rfloor>" by simp
  moreover have "rne x \<le> \<lfloor>x\<rfloor> + 1" by (simp add: rne_def Let_def)
  moreover have "\<lfloor>y\<rfloor> \<le> rne y" by (simp add: rne_def Let_def)
  ultimately show ?thesis by simp
qed

lemma rne_zero [simp]: "rne 0 = 0"
  by (simp add: rne_def)

lemma rne_nonneg: "0 \<le> x \<Longrightarrow> 0 \<le> rne x"
  using rne_mono[of 0 x] by simp

subsection \<open>Rounding to a grid\<close>

lemma to_grid_mono: "x \<le> y \<Longrightarrow> to_grid k x \<le> to_grid k y"
proof -
  assume "x \<le> y"
  then have "x / 2 powi k \<le> y / 2 powi k" by (simp add: divide_right_mono)
  then have "rne (x / 2 powi k) \<le> rne (y / 2 powi k)" by (rule rne_mono)
  then have "(of_int (rne (x / 2 powi k)) :: rat) \<le> of_int (rne (y / 2 powi k))" by simp
  then show ?thesis unfolding to_grid_def by (rule mult_right_mono) simp
qed

lemma to_grid_multiple [simp]: "to_grid k (of_int n * 2 powi k) = of_int n * 2 powi k"
  by (simp add: to_grid_def)

lemma to_grid_zero [simp]: "to_grid k 0 = 0"
  using to_grid_multiple[of k 0] by simp

lemma to_grid_nonneg: "0 \<le> x \<Longrightarrow> 0 \<le> to_grid k x"
  using to_grid_mono[of 0 x k] by simp

lemma pow2_multiple:
  assumes "k \<le> j"
  shows "(2::rat) powi j = of_int (2 ^ nat (j - k)) * 2 powi k"
proof -
  have "(2::rat) powi j = 2 powi ((j - k) + k)" by simp
  also have "\<dots> = 2 powi (j - k) * 2 powi k" by (subst power_int_add) simp_all
  also have "(2::rat) powi (j - k) = of_int (2 ^ nat (j - k))"
    using assms by (simp add: power_int_def)
  finally show ?thesis .
qed

lemma to_grid_pow2: "k \<le> j \<Longrightarrow> to_grid k (2 powi j) = 2 powi j"
  by (subst (1 2) pow2_multiple[of k j]) (simp_all only: to_grid_multiple)

subsection \<open>Rounding to the nearest double\<close>

lemma rnd_zero [simp]: "rnd 0 = 0"
  by (simp add: rnd_def)

lemma rnd_minus: "rnd (- x) = - rnd x"
  by (cases "x = 0") (auto simp: rnd_def)

lemma rnd_nonneg: "0 \<le> x \<Longrightarrow> 0 \<le> rnd x"
  by (simp add: rnd_def to_grid_nonneg)

lemma rnd_mono_nonneg:
  assumes "0 \<le> x" "x \<le> y"
  shows "rnd x \<le> rnd y"
proof -
  from assms have y0: "0 \<le> y" by simp
  have rx: "rnd x = to_grid (ulp_exp x) x" using assms(1) by (simp add: rnd_def)
  have ry: "rnd y = to_grid (ulp_exp y) y" using y0 by (simp add: rnd_def)
  from assms have "\<bar>x\<bar> \<le> \<bar>y\<bar>" by simp
  from ulp_exp_mono[OF this] have k: "ulp_exp x \<le> ulp_exp y" .
  show ?thesis
  proof (cases "ulp_exp x = ulp_exp y")
    case True
    with rx ry assms(2) show ?thesis by (simp add: to_grid_mono)
  next
    case False
    with k have lt: "ulp_exp x < ulp_exp y" by simp
    define B :: rat where "B = 2 powi (ulp_exp y + 52)"
    from lt ulp_exp_ge[of x] have "- 1074 < ulp_exp y" by simp
    from ulp_exp_lower[OF this] y0 have By: "B \<le> y" by (simp add: B_def)
    have xB: "x \<le> B"
    proof (cases "x = 0")
      case True
      then show ?thesis by (simp add: B_def)
    next
      case False
      from ulp_exp_upper[OF this] assms(1) have "x < 2 powi (ulp_exp x + 53)" by simp
      also have "\<dots> \<le> B" using lt by (simp add: B_def pow2_le_iff)
      finally show ?thesis by simp
    qed
    have "to_grid (ulp_exp x) x \<le> to_grid (ulp_exp x) B" using xB by (rule to_grid_mono)
    also have "\<dots> = B" unfolding B_def using lt by (intro to_grid_pow2) simp
    also have "\<dots> = to_grid (ulp_exp y) B" unfolding B_def by (rule to_grid_pow2[symmetric]) simp
    also have "\<dots> \<le> to_grid (ulp_exp y) y" using By by (rule to_grid_mono)
    finally show ?thesis using rx ry by simp
  qed
qed

lemma rnd_mono:
  assumes "x \<le> y"
  shows "rnd x \<le> rnd y"
proof -
  consider "0 \<le> x" | "x < 0" "0 \<le> y" | "y < 0" using assms by linarith
  then show ?thesis
  proof cases
    case 1
    then show ?thesis using assms by (rule rnd_mono_nonneg)
  next
    case 2
    then have "0 \<le> rnd (- x)" by (intro rnd_nonneg) simp
    then have "rnd x \<le> 0" by (simp add: rnd_minus)
    also have "0 \<le> rnd y" using 2 by (intro rnd_nonneg)
    finally show ?thesis .
  next
    case 3
    with assms have "0 \<le> - y" "- y \<le> - x" by simp_all
    then have "rnd (- y) \<le> rnd (- x)" by (rule rnd_mono_nonneg)
    then show ?thesis by (simp add: rnd_minus)
  qed
qed

subsection \<open>Evaluating a rounding\<close>

lemma powi_numeral: "(x::rat) powi (numeral n) = x ^ numeral n"
  by (simp add: power_int_def)

lemma powi_neg_numeral: "(x::rat) powi (- numeral n) = 1 / x ^ numeral n"
  by (simp add: power_int_def field_simps)

lemmas powi_eval = powi_numeral powi_neg_numeral power_int_0_right

lemma rnd_eval:
  assumes "0 < x" "2 powi e \<le> x" "x < 2 powi (e + 1)" "- 1022 \<le> e"
  shows "rnd x = of_int (rne (x / 2 powi (e - 52))) * 2 powi (e - 52)"
proof -
  from assms(1-3) have "floor_log2 \<bar>x\<bar> = e" by (intro floor_log2_unique) simp_all
  with assms(1,4) show ?thesis by (simp add: rnd_def ulp_exp_def to_grid_def max_def)
qed

lemma rne_fraction:
  "rne (numeral a / numeral b) =
     (let f = numeral a div numeral b; r = 2 * (numeral a mod numeral b) :: int
      in if r < numeral b then f else if numeral b < r then f + 1
         else if even f then f else f + 1)"
proof -
  define p :: int where "p = numeral a"
  define q :: int where "q = numeral b"
  have q: "0 < q" by (simp add: q_def)
  have x: "(numeral a / numeral b :: rat) = of_int p / of_int q" by (simp add: p_def q_def)
  have f: "\<lfloor>of_int p / of_int q :: rat\<rfloor> = p div q" by (rule floor_divide_of_int_eq)
  have e: "(of_int p :: rat) = of_int (p div q) * of_int q + of_int (p mod q)"
    by (metis div_mult_mod_eq of_int_add of_int_mult)
  have "(of_int p / of_int q :: rat) = of_int (p div q) + of_int (p mod q) / of_int q"
    by (subst e) (use q in \<open>simp add: add_divide_distrib\<close>)
  then have d: "(of_int p / of_int q :: rat) - of_int (p div q) = of_int (p mod q) / of_int q"
    by simp
  have lt: "(of_int (p mod q) / of_int q :: rat) < 1 / 2 \<longleftrightarrow> 2 * (p mod q) < q"
  proof -
    have "(of_int (p mod q) / of_int q :: rat) < 1 / 2 \<longleftrightarrow> (of_int (2 * (p mod q)) :: rat) < of_int q"
      using q by (simp add: field_simps)
    then show ?thesis by (simp only: of_int_less_iff)
  qed
  have gt: "(1 / 2 :: rat) < of_int (p mod q) / of_int q \<longleftrightarrow> q < 2 * (p mod q)"
  proof -
    have "(1 / 2 :: rat) < of_int (p mod q) / of_int q \<longleftrightarrow> (of_int q :: rat) < of_int (2 * (p mod q))"
      using q by (simp add: field_simps)
    then show ?thesis by (simp only: of_int_less_iff)
  qed
  show ?thesis
    unfolding x rne_def f d Let_def lt gt by (simp add: p_def q_def)
qed

lemma rne_numeral [simp]: "rne (numeral n) = numeral n"
  using rne_of_int[of "numeral n"] by simp

lemma floor_fraction: "\<lfloor>numeral a / numeral b :: rat\<rfloor> = numeral a div numeral b"
  using floor_divide_of_int_eq[of "numeral a" "numeral b", where ?'a = rat] by simp

lemma rnd_one: "rnd 1 = 1"
  by (subst rnd_eval[where e = 0]) (simp_all add: powi_eval)

lemma rnd_255: "rnd 255 = 255"
  by (subst rnd_eval[where e = 7]) (simp_all add: powi_eval)

subsection \<open>Results are doubles\<close>

lemma rnd_pow2:
  assumes "- 1074 \<le> j"
  shows "rnd (2 powi j) = 2 powi j"
proof -
  have pos: "(0::rat) < 2 powi j" by simp
  have "ulp_exp (2 powi j) \<le> j"
  proof (rule ccontr)
    assume "\<not> ulp_exp (2 powi j) \<le> j"
    then have gt: "j < ulp_exp (2 powi j)" by simp
    with assms have "- 1074 < ulp_exp (2 powi j)" by simp
    from ulp_exp_lower[OF this] have "(2::rat) powi (ulp_exp (2 powi j) + 52) \<le> 2 powi j"
      by simp
    then have "ulp_exp (2 powi j) + 52 \<le> j" by (simp only: pow2_le_iff)
    with gt show False by simp
  qed
  then have "to_grid (ulp_exp (2 powi j)) (2 powi j) = 2 powi j" by (rule to_grid_pow2)
  moreover from pos have "\<not> (2::rat) powi j < 0" by (simp only: not_less less_imp_le)
  ultimately show ?thesis by (simp only: rnd_def if_False)
qed

lemma rne_le_int: "x \<le> of_int n \<Longrightarrow> rne x \<le> n"
  using rne_mono[of x "of_int n"] by simp

lemma rnd_idem_nonneg:
  assumes "0 \<le> x"
  shows "rnd (rnd x) = rnd x"
proof (cases "x = 0")
  case True
  then show ?thesis by simp
next
  case False
  define k where "k = ulp_exp x"
  define m where "m = rne (x / 2 powi k)"
  have y: "rnd x = of_int m * 2 powi k" using assms by (simp add: rnd_def to_grid_def k_def m_def)
  have m0: "0 \<le> m" unfolding m_def using assms by (intro rne_nonneg) simp
  from ulp_exp_upper[OF False] assms have "x < 2 powi (k + 53)" by (simp add: k_def)
  also have "\<dots> = 2 powi 53 * 2 powi k" by (subst power_int_add) (simp_all add: mult.commute)
  finally have "x / 2 powi k < 2 powi 53" by (simp add: field_simps)
  then have "x / 2 powi k \<le> of_int (2 ^ 53)" by (simp add: powi_eval)
  then have m1: "m \<le> 2 ^ 53" unfolding m_def by (rule rne_le_int)
  have kge: "- 1074 \<le> k" unfolding k_def by (rule ulp_exp_ge)
  show ?thesis
  proof (cases "m = 2 ^ 53")
    case True
    have "rnd x = 2 powi 53 * 2 powi k" unfolding y True by (simp add: powi_eval)
    also have "\<dots> = 2 powi (53 + k)" by (subst power_int_add) simp_all
    finally have "rnd x = 2 powi (53 + k)" .
    moreover have "rnd (2 powi (53 + k)) = 2 powi (53 + k)" using kge by (intro rnd_pow2) simp
    ultimately show ?thesis by simp
  next
    case False
    with m1 have mlt: "m < 2 ^ 53" by simp
    have y0: "0 \<le> rnd x" using assms by (rule rnd_nonneg)
    have "ulp_exp (rnd x) \<le> k"
    proof (rule ccontr)
      assume "\<not> ulp_exp (rnd x) \<le> k"
      then have gt: "k < ulp_exp (rnd x)" by simp
      with kge have "- 1074 < ulp_exp (rnd x)" by simp
      from ulp_exp_lower[OF this] y0 have "2 powi (ulp_exp (rnd x) + 52) \<le> rnd x" by simp
      moreover have "(2::rat) powi (k + 53) \<le> 2 powi (ulp_exp (rnd x) + 52)"
        using gt by (simp add: pow2_le_iff)
      moreover have "rnd x < 2 powi (k + 53)"
      proof -
        have "(of_int m :: rat) < of_int (2 ^ 53)" using mlt by (simp only: of_int_less_iff)
        then have "(of_int m :: rat) < 2 powi 53" by (simp add: powi_eval)
        then have "of_int m * 2 powi k < 2 powi 53 * (2::rat) powi k"
          by (rule mult_strict_right_mono) simp
        also have "\<dots> = 2 powi (53 + k)" by (subst power_int_add) simp_all
        finally show ?thesis by (simp add: y add.commute)
      qed
      ultimately show False by simp
    qed
    then have "(2::rat) powi k = of_int (2 ^ nat (k - ulp_exp (rnd x))) * 2 powi (ulp_exp (rnd x))"
      by (rule pow2_multiple)
    then have "rnd x = of_int (m * 2 ^ nat (k - ulp_exp (rnd x))) * 2 powi (ulp_exp (rnd x))"
      by (simp add: y)
    then have "to_grid (ulp_exp (rnd x)) (rnd x) = rnd x"
      by (metis to_grid_multiple)
    with y0 show ?thesis by (simp add: rnd_def)
  qed
qed

lemma rnd_idem [simp]: "rnd (rnd x) = rnd x"
proof (cases "0 \<le> x")
  case True
  then show ?thesis by (rule rnd_idem_nonneg)
next
  case False
  then have "rnd (rnd (- x)) = rnd (- x)" by (intro rnd_idem_nonneg) simp
  then show ?thesis by (simp add: rnd_minus)
qed

lemma rnd_grid: "\<exists>m. rnd x = of_int m * 2 powi (- 1074)"
proof -
  have g: "\<exists>m. to_grid (ulp_exp x) t = of_int m * 2 powi (- 1074)" for t
  proof -
    have "(2::rat) powi (ulp_exp x) = of_int (2 ^ nat (ulp_exp x - (- 1074))) * 2 powi (- 1074)"
      using ulp_exp_ge[of x] by (rule pow2_multiple)
    then have "to_grid (ulp_exp x) t =
        of_int (rne (t / 2 powi ulp_exp x) * 2 ^ nat (ulp_exp x - (- 1074))) * 2 powi (- 1074)"
      by (simp add: to_grid_def)
    then show ?thesis by blast
  qed
  show ?thesis
  proof (cases "x < 0")
    case True
    from g[of "- x"] obtain m where "to_grid (ulp_exp x) (- x) = of_int m * 2 powi (- 1074)" by blast
    with True have "rnd x = of_int (- m) * 2 powi (- 1074)" by (simp add: rnd_def)
    then show ?thesis by blast
  next
    case False
    with g[of x] show ?thesis by (simp add: rnd_def)
  qed
qed

lemma double_grid: "is_double r \<Longrightarrow> \<exists>m. r = of_int m * 2 powi (- 1074)"
  using rnd_grid[of r] by (simp add: is_double_def)

lemma double_diff_rounds_positive:
  assumes "is_double a" "is_double b" "a < b"
  shows "0 < rnd (b - a)"
proof -
  from double_grid[OF assms(1)] obtain m where a: "a = of_int m * 2 powi (- 1074)" by blast
  from double_grid[OF assms(2)] obtain n where b: "b = of_int n * 2 powi (- 1074)" by blast
  from assms(3) have "(of_int m :: rat) * 2 powi (- 1074) < of_int n * 2 powi (- 1074)"
    by (simp add: a b)
  then have "(of_int m :: rat) < of_int n" by (simp only: mult_less_cancel_right_pos pow2_pos)
  then have "m + 1 \<le> n" by simp
  then have "(of_int (m + 1) :: rat) \<le> of_int n" by (simp only: of_int_le_iff)
  then have "(of_int (m + 1) :: rat) * 2 powi (- 1074) \<le> of_int n * 2 powi (- 1074)"
    by (rule mult_right_mono) simp
  then have "2 powi (- 1074) \<le> b - a" by (simp add: a b algebra_simps)
  then have "rnd (2 powi (- 1074)) \<le> rnd (b - a)" by (rule rnd_mono)
  moreover have "rnd (2 powi (- 1074)) = 2 powi (- 1074)" by (rule rnd_pow2) simp
  ultimately show ?thesis using pow2_pos[of "- 1074"] by linarith
qed

lemma is_double_of_nat: "n < 2 ^ 53 \<Longrightarrow> is_double (of_nat n)"
proof -
  assume n: "n < 2 ^ 53"
  have lt: "(of_nat n :: rat) < 2 ^ 53"
  proof -
    have "(of_nat n :: rat) < of_nat (2 ^ 53)" using n by (simp only: of_nat_less_iff)
    then show ?thesis by simp
  qed
  have k: "ulp_exp (of_nat n) \<le> 0"
  proof (rule ccontr)
    assume "\<not> ulp_exp (of_nat n :: rat) \<le> 0"
    then have gt: "0 < ulp_exp (of_nat n :: rat)" by simp
    then have "- 1074 < ulp_exp (of_nat n :: rat)" by simp
    from ulp_exp_lower[OF this] have "2 powi (ulp_exp (of_nat n :: rat) + 52) \<le> (of_nat n :: rat)"
      by simp
    moreover have "(2::rat) powi 53 \<le> 2 powi (ulp_exp (of_nat n :: rat) + 52)"
      by (simp only: pow2_le_iff) (use gt in linarith)
    ultimately show False using lt by (simp add: powi_eval)
  qed
  have "(1::rat) = of_int (2 ^ nat (0 - ulp_exp (of_nat n :: rat))) * 2 powi (ulp_exp (of_nat n :: rat))"
    using pow2_multiple[OF k] by simp
  then have "(of_nat n :: rat) =
      of_int (int n * 2 ^ nat (0 - ulp_exp (of_nat n :: rat))) * 2 powi (ulp_exp (of_nat n :: rat))"
    by (simp add: algebra_simps)
  then have "to_grid (ulp_exp (of_nat n :: rat)) (of_nat n) = of_nat n"
    by (metis to_grid_multiple)
  then have "rnd (of_nat n) = (of_nat n :: rat)" by (simp add: rnd_def)
  moreover have "\<bar>of_nat n :: rat\<bar> < 2 ^ 1024"
  proof -
    have "(2::rat) ^ 53 \<le> 2 ^ 1024" by (rule power_increasing) simp_all
    with lt show ?thesis by simp
  qed
  ultimately show ?thesis by (simp add: is_double_def)
qed

subsection \<open>Operations return numbers\<close>

lemma fin_cases:
  obtains "fin x = PInf" "2 ^ 1024 \<le> rnd x"
  | "fin x = NInf" "rnd x \<le> - (2 ^ 1024)"
  | "fin x = Fin (rnd x)" "\<bar>rnd x\<bar> < 2 ^ 1024"
  by (cases "2 ^ 1024 \<le> rnd x"; cases "rnd x \<le> - (2 ^ 1024)") (auto simp: fin_def Let_def)

lemma is_number_fin [simp]: "is_number (fin x)"
  by (rule fin_cases[of x]) (simp_all add: is_double_def)

lemma is_double_zero [simp]: "is_double 0"
  by (simp add: is_double_def)

lemma is_number_js_sub [simp]: "is_number (js_sub a b)"
  by (cases a; cases b) simp_all

lemma is_number_js_add [simp]: "is_number (js_add a b)"
  by (cases a; cases b) simp_all

lemma is_number_sample [simp]: "is_number (sample b)"
proof -
  have "unat b < 2 ^ 8" using unsigned_less[of b, where ?'a = nat] by simp
  also have "(2::nat) ^ 8 \<le> 2 ^ 53" by (rule power_increasing) simp_all
  finally have "is_double (of_nat (unat b))" by (rule is_double_of_nat)
  then show ?thesis unfolding sample_def by (simp only: is_number.simps)
qed

lemma fin_zero [simp]: "fin 0 = Fin 0"
  by (simp add: fin_def)

lemma fin_mono: "x \<le> y \<Longrightarrow> js_le (fin x) (fin y)"
proof -
  assume "x \<le> y"
  then have r: "rnd x \<le> rnd y" by (rule rnd_mono)
  show ?thesis
    by (rule fin_cases[of x]; rule fin_cases[of y]) (use r in auto)
qed

lemma fin_nonneg: "0 \<le> x \<Longrightarrow> js_le (Fin 0) (fin x)"
  using fin_mono[of 0 x] by simp

lemma fin_pos:
  assumes "0 < rnd x"
  shows "js_lt (Fin 0) (fin x)"
  by (rule fin_cases[of x]) (use assms in auto)

subsection \<open>A sample inside a finite window\<close>

lemma divisor_positive:
  assumes "is_double m" "is_double M" "m < M"
  shows "js_lt (Fin 0) (js_sub (Fin M) (Fin m))"
  using double_diff_rounds_positive[OF assms] by (simp add: fin_pos)

lemma unit_interval_rounds:
  assumes "0 \<le> a" "a \<le> b" "0 < b"
  shows "0 \<le> rnd (a / b) \<and> rnd (a / b) \<le> 1"
proof -
  from assms have "0 \<le> a / b" "a / b \<le> 1" by simp_all
  then have "rnd 0 \<le> rnd (a / b)" "rnd (a / b) \<le> rnd 1" by (simp_all only: rnd_mono)
  then show ?thesis by (simp add: rnd_one)
qed

lemma byte_interval_rounds:
  assumes "0 \<le> q" "q \<le> 1"
  shows "0 \<le> rnd (q * 255) \<and> rnd (q * 255) \<le> 255"
proof -
  from assms have "0 \<le> q * 255" "q * 255 \<le> 255" by simp_all
  then have "rnd 0 \<le> rnd (q * 255)" "rnd (q * 255) \<le> rnd 255" by (simp_all only: rnd_mono)
  then show ?thesis by (simp add: rnd_255)
qed

lemma fin_small: "\<bar>rnd x\<bar> < 2 ^ 1024 \<Longrightarrow> fin x = Fin (rnd x)"
  by (auto simp: fin_def Let_def)

lemma small_lt_huge: "\<bar>r\<bar> \<le> 255 \<Longrightarrow> \<bar>r :: rat\<bar> < 2 ^ 1024"
proof -
  assume "\<bar>r\<bar> \<le> 255"
  moreover have "(255::rat) < 2 ^ 8" by simp
  moreover have "(2::rat) ^ 8 \<le> 2 ^ 1024" by (rule power_increasing) simp_all
  ultimately show ?thesis by linarith
qed

lemma scaled_range:
  assumes "0 \<le> a" "a \<le> b" "0 < b"
  shows "0 \<le> scaled a b \<and> scaled a b \<le> 255"
proof -
  from unit_interval_rounds[OF assms] byte_interval_rounds[of "rnd (a / b)"]
  have p: "0 \<le> rnd (rnd (a / b) * 255)" "rnd (rnd (a / b) * 255) \<le> 255" by simp_all
  then have "0 \<le> rnd (rnd (a / b) * 255) + 1 / 2" "rnd (rnd (a / b) * 255) + 1 / 2 < 256" by simp_all
  then have "0 \<le> \<lfloor>rnd (rnd (a / b) * 255) + 1 / 2\<rfloor>" "\<lfloor>rnd (rnd (a / b) * 255) + 1 / 2\<rfloor> < 256"
    by (simp_all only: zero_le_floor floor_less_iff of_int_numeral)
  then show ?thesis by (simp add: scaled_def)
qed

lemma scaled_mono:
  assumes "a1 \<le> a2" "0 < b"
  shows "scaled a1 b \<le> scaled a2 b"
proof -
  from assms have "a1 / b \<le> a2 / b" by (simp add: divide_right_mono)
  then have "rnd (a1 / b) \<le> rnd (a2 / b)" by (rule rnd_mono)
  then have "rnd (a1 / b) * 255 \<le> rnd (a2 / b) * 255" by simp
  then have "rnd (rnd (a1 / b) * 255) \<le> rnd (rnd (a2 / b) * 255)" by (rule rnd_mono)
  then have "rnd (rnd (a1 / b) * 255) + 1 / 2 \<le> rnd (rnd (a2 / b) * 255) + 1 / 2" by simp
  then show ?thesis unfolding scaled_def by (rule floor_mono)
qed

lemma windowed_finite_divisor:
  assumes "js_sub (Fin x) (Fin m) = Fin a" "js_sub (Fin M) (Fin m) = Fin b"
    and "0 \<le> a" "a \<le> b" "0 < b"
  shows "windowed (Fin m) (Fin M) (Fin x) = Fin (of_int (scaled a b))"
proof -
  from unit_interval_rounds[OF assms(3-5)]
  have q: "0 \<le> rnd (a / b)" "rnd (a / b) \<le> 1" by simp_all
  then have "\<bar>rnd (a / b)\<bar> \<le> 255" by simp
  then have fq: "fin (a / b) = Fin (rnd (a / b))" by (intro fin_small small_lt_huge)
  from byte_interval_rounds[OF q]
  have "\<bar>rnd (rnd (a / b) * 255)\<bar> \<le> 255" by simp
  then have fp: "fin (rnd (a / b) * 255) = Fin (rnd (rnd (a / b) * 255))"
    by (intro fin_small small_lt_huge)
  show ?thesis
    unfolding windowed_def assms(1,2) by (simp add: fq fp scaled_def)
qed

lemma toUint8Clamped_int:
  "0 \<le> n \<Longrightarrow> n \<le> 255 \<Longrightarrow> uint (toUint8Clamped (Fin (of_int n))) = n"
  by (simp add: uint_word_of_int take_bit_eq_mod)

lemma floor_half [simp]: "\<lfloor>1 / 2 :: rat\<rfloor> = 0"
  by (simp add: floor_eq_iff)

subsection \<open>The largest double\<close>

lemma double_bound_pos:
  assumes "is_double r" "0 < r"
  shows "r \<le> 2 ^ 1024 - 2 ^ 971"
proof -
  define k where "k = ulp_exp r"
  from assms have rr: "rnd r = r" and lt: "r < 2 ^ 1024" by (simp_all add: is_double_def)
  have k971: "k \<le> 971"
  proof (rule ccontr)
    assume "\<not> k \<le> 971"
    then have gt: "971 < k" by simp
    then have "- 1074 < ulp_exp r" by (simp add: k_def)
    from ulp_exp_lower[OF this] assms(2) have "2 powi (k + 52) \<le> r" by (simp add: k_def)
    moreover have "(2::rat) powi 1024 \<le> 2 powi (k + 52)"
      by (simp only: pow2_le_iff) (use gt in linarith)
    ultimately have "(2::rat) powi 1024 \<le> r" by simp
    with lt show False by (simp add: powi_eval)
  qed
  show ?thesis
  proof (cases "k = 971")
    case False
    with k971 have "k + 53 \<le> 1023" by simp
    then have "(2::rat) powi (k + 53) \<le> 2 powi 1023" by (simp only: pow2_le_iff)
    moreover from ulp_exp_upper[of r] assms(2) have "r < 2 powi (k + 53)" by (simp add: k_def)
    ultimately have "r \<le> 2 powi 1023" by simp
    also have "(2::rat) powi 1023 \<le> 2 ^ 1024 - 2 ^ 971" by (simp add: powi_eval)
    finally show ?thesis .
  next
    case True
    define n where "n = rne (r / 2 powi 971)"
    from rr assms(2) True have r: "r = of_int n * 2 powi 971"
      by (simp add: rnd_def to_grid_def k_def n_def)
    have "of_int n * 2 powi 971 < (2::rat) ^ 1024" using lt r by simp
    also have "(2::rat) ^ 1024 = of_int (2 ^ 53) * 2 powi 971" by (simp add: powi_eval)
    finally have "(of_int n :: rat) < of_int (2 ^ 53)"
      by (simp only: mult_less_cancel_right_pos pow2_pos)
    then have "n < 2 ^ 53" by (simp only: of_int_less_iff)
    then have "n \<le> 2 ^ 53 - 1" by simp
    then have "(of_int n :: rat) \<le> of_int (2 ^ 53 - 1)" by (simp only: of_int_le_iff)
    then have "of_int n * 2 powi 971 \<le> (of_int (2 ^ 53 - 1) :: rat) * 2 powi 971"
      by (rule mult_right_mono) simp
    also have "(of_int (2 ^ 53 - 1) :: rat) * 2 powi 971 = 2 ^ 1024 - 2 ^ 971"
      by (simp add: powi_eval)
    finally show ?thesis using r by simp
  qed
qed

lemma is_double_minus: "is_double r \<Longrightarrow> is_double (- r)"
  by (simp add: is_double_def rnd_minus)

lemma double_bound_neg:
  assumes "is_double r"
  shows "- (2 ^ 1024 - 2 ^ 971) \<le> r"
proof (cases "r < 0")
  case True
  with double_bound_pos[OF is_double_minus[OF assms]] show ?thesis by simp
next
  case False
  have "(2::rat) ^ 971 \<le> 2 ^ 1024" by (rule power_increasing) simp_all
  with False show ?thesis by simp
qed

lemma rnd_near_top: "rnd (255 + (2 ^ 1024 - 2 ^ 971)) = 2 ^ 1024 - 2 ^ 971"
  by (subst rnd_eval[where e = 1023]) (simp_all add: powi_eval rne_fraction Let_def)

lemma sample_difference_finite:
  assumes "is_double m" "0 \<le> x" "x \<le> 255" "m < x"
  shows "js_sub (Fin x) (Fin m) = Fin (rnd (x - m)) \<and> 0 \<le> rnd (x - m)"
proof -
  from assms(4) have nn: "0 \<le> rnd (x - m)" by (intro rnd_nonneg) simp
  from double_bound_neg[OF assms(1)] assms(3) have "x - m \<le> 255 + (2 ^ 1024 - 2 ^ 971)" by simp
  then have "rnd (x - m) \<le> rnd (255 + (2 ^ 1024 - 2 ^ 971))" by (rule rnd_mono)
  then have "rnd (x - m) \<le> 2 ^ 1024 - 2 ^ 971" by (simp only: rnd_near_top)
  moreover have "(0::rat) < 2 ^ 971" by simp
  ultimately have "rnd (x - m) < 2 ^ 1024" by linarith
  with nn have "\<bar>rnd (x - m)\<bar> < 2 ^ 1024" by simp
  then have "fin (x - m) = Fin (rnd (x - m))" by (rule fin_small)
  with nn show ?thesis by simp
qed

subsection \<open>The linear branch on a finite window\<close>

lemma windowed_finite:
  assumes d: "is_double m" "is_double M"
    and s: "0 \<le> x" "x \<le> 255"
    and w: "m < x" "x < M"
  shows "windowed (Fin m) (Fin M) (Fin x) = Fin (of_int (linearValue m M x)) \<and>
         0 \<le> linearValue m M x \<and> linearValue m M x \<le> 255"
proof -
  from w have mM: "m < M" by simp
  have pos: "js_lt (Fin 0) (js_sub (Fin M) (Fin m))" using d mM by (rule divisor_positive)
  from sample_difference_finite[OF d(1) s w(1)]
  have A: "js_sub (Fin x) (Fin m) = Fin (rnd (x - m))" and a0: "0 \<le> rnd (x - m)" by simp_all
  show ?thesis
  proof (cases "js_sub (Fin M) (Fin m)")
    case (Fin b)
    with pos have b: "0 < b" by simp
    have "fin (M - m) = Fin b" using Fin by simp
    then have rb: "rnd (M - m) = b" by (rule_tac fin_cases[of "M - m"]) simp_all
    have ab: "rnd (x - m) \<le> b" unfolding rb[symmetric] using w by (intro rnd_mono) simp
    from windowed_finite_divisor[OF A Fin a0 ab b] scaled_range[OF a0 ab b] Fin
    show ?thesis by (simp add: linearValue_def)
  next
    case PInf
    from A have "fin (x - m) = Fin (rnd (x - m))" by simp
    with PInf show ?thesis by (simp add: windowed_def linearValue_def)
  next
    case NInf
    with pos show ?thesis by simp
  next
    case NaN
    with pos show ?thesis by simp
  qed
qed

lemma linear_mono:
  assumes d: "is_double m" "is_double M"
    and "m < x1" "x1 \<le> x2" "x2 < M"
  shows "linearValue m M x1 \<le> linearValue m M x2"
proof (cases "js_sub (Fin M) (Fin m)")
  case (Fin b)
  from assms have "m < M" by simp
  from divisor_positive[OF d this] Fin have b: "0 < b" by simp
  from assms(4) have "rnd (x1 - m) \<le> rnd (x2 - m)" by (intro rnd_mono) simp
  from scaled_mono[OF this b] Fin show ?thesis by (simp add: linearValue_def)
qed (simp_all add: linearValue_def)

subsection \<open>The linear branch on a window that is not finite\<close>

lemma windowed_not_finite:
  assumes "\<not> js_le (Fin x) lo" "\<not> js_ge (Fin x) hi"
    and "(\<forall>m. lo \<noteq> Fin m) \<or> (\<forall>M. hi \<noteq> Fin M)"
  shows "js_sub hi lo \<noteq> Fin 0 \<and>
         (windowed lo hi (Fin x) = NaN \<or> windowed lo hi (Fin x) = Fin 0)"
proof (cases lo)
  case (Fin m)
  with assms(3) have nf: "\<forall>M. hi \<noteq> Fin M" by simp
  show ?thesis
  proof (cases hi)
    case PInf
    show ?thesis
      by (rule fin_cases[of "x - m"]) (simp_all add: windowed_def Fin PInf)
  next
    case NInf
    with assms(2) show ?thesis by (simp add: js_ge_def)
  next
    case NaN
    show ?thesis
      by (rule fin_cases[of "x - m"]) (simp_all add: windowed_def Fin NaN)
  qed (use nf in simp)
next
  case PInf
  with assms(1) show ?thesis by simp
next
  case NInf
  with assms(2) show ?thesis by (cases hi) (simp_all add: windowed_def js_ge_def)
next
  case NaN
  then show ?thesis by (cases hi) (simp_all add: windowed_def)
qed

section \<open>Properties of the window/level transform\<close>

subsection \<open>Samples\<close>

lemma sample_bounds:
  "is_double (of_nat (unat (b::u8))) \<and> (0::rat) \<le> of_nat (unat b) \<and> (of_nat (unat b) :: rat) \<le> 255"
proof -
  have lt: "unat b < 2 ^ 8" using unsigned_less[of b, where ?'a = nat] by simp
  also have "(2::nat) ^ 8 \<le> 2 ^ 53" by (rule power_increasing) simp_all
  finally have d: "is_double (of_nat (unat b))" by (rule is_double_of_nat)
  from lt have "unat b \<le> 255" by simp
  then have "(of_nat (unat b) :: rat) \<le> of_nat 255" by (rule of_nat_mono)
  then have "(of_nat (unat b) :: rat) \<le> 255" by (simp only: of_nat_numeral)
  moreover have "(0::rat) \<le> of_nat (unat b)" by (rule of_nat_0_le_iff)
  ultimately show ?thesis using d by blast
qed

lemma sample_cases:
  obtains g where "sample b = Fin g" "is_double g" "0 \<le> g" "g \<le> 255" "g = of_nat (unat b)"
  using sample_bounds[of b] unfolding sample_def by blast

subsection \<open>One sample\<close>

lemma js_sub_not_finite:
  "(\<forall>m. lo \<noteq> Fin m) \<or> (\<forall>M. hi \<noteq> Fin M) \<Longrightarrow> js_sub hi lo \<noteq> Fin 0"
  by (cases lo; cases hi) simp_all

lemma divisor_not_zero:
  assumes n: "is_number lo" "is_number hi"
    and w: "\<not> js_le (Fin g) lo" "\<not> js_ge (Fin g) hi"
  shows "js_sub hi lo \<noteq> Fin 0"
proof (cases "(\<forall>m. lo \<noteq> Fin m) \<or> (\<forall>M. hi \<noteq> Fin M)")
  case True
  then show ?thesis by (rule js_sub_not_finite)
next
  case False
  then obtain m M where lo: "lo = Fin m" and hi: "hi = Fin M" by blast
  from w have "m < M" by (simp add: lo hi js_ge_def)
  from divisor_positive[OF _ _ this] n show ?thesis by (auto simp: lo hi)
qed

lemma newValue_eq:
  assumes "is_number lo" "is_number hi"
  shows "newValue lo hi (Fin g) =
           (if js_le (Fin g) lo then Inr (Fin 0)
            else if js_ge (Fin g) hi then Inr (Fin 255)
            else Inr (windowed lo hi (Fin g)))"
  using divisor_not_zero[OF assms, of g]
  by (simp add: newValue_def js_divide_def windowed_def)

lemma newValue_total:
  assumes "is_number lo" "is_number hi"
  shows "\<exists>v. newValue lo hi (Fin g) = Inr v"
  by (simp add: newValue_eq[OF assms])

lemma divisor_positive_window:
  assumes n: "is_number lo" "is_number hi"
    and w: "\<not> js_le (Fin g) lo" "\<not> js_ge (Fin g) hi"
    and nan: "lo \<noteq> NaN" "hi \<noteq> NaN"
  shows "js_lt lo (Fin g) \<and> js_lt (Fin g) hi \<and> js_lt (Fin 0) (js_sub hi lo)"
proof (cases lo)
  case lo: (Fin m)
  show ?thesis
  proof (cases hi)
    case hi: (Fin M)
    from w have "m < g" "g < M" by (simp_all add: lo hi js_ge_def)
    moreover from this have "m < M" by simp
    from divisor_positive[OF _ _ this] n have "js_lt (Fin 0) (js_sub hi lo)" by (simp add: lo hi)
    ultimately show ?thesis by (simp add: lo hi)
  qed (use w nan in \<open>simp_all add: lo js_ge_def\<close>)
next
  case NInf
  then show ?thesis using w nan by (cases hi) (simp_all add: js_ge_def)
qed (use w nan in simp_all)

text \<open>What the linear branch leaves in the array.\<close>

lemma linear_branch:
  assumes n: "is_number lo" "is_number hi"
    and g: "is_double g" "0 \<le> g" "g \<le> 255"
    and w: "\<not> js_le (Fin g) lo" "\<not> js_ge (Fin g) hi"
  shows "(\<exists>m M. lo = Fin m \<and> hi = Fin M \<and> m < g \<and> g < M \<and>
            windowed lo hi (Fin g) = Fin (of_int (linearValue m M g)) \<and>
            0 \<le> linearValue m M g \<and> linearValue m M g \<le> 255 \<and>
            uint (toUint8Clamped (windowed lo hi (Fin g))) = linearValue m M g) \<or>
         (((\<forall>m. lo \<noteq> Fin m) \<or> (\<forall>M. hi \<noteq> Fin M)) \<and>
          (windowed lo hi (Fin g) = NaN \<or> windowed lo hi (Fin g) = Fin 0) \<and>
          toUint8Clamped (windowed lo hi (Fin g)) = 0)"
proof (cases "(\<forall>m. lo \<noteq> Fin m) \<or> (\<forall>M. hi \<noteq> Fin M)")
  case True
  from windowed_not_finite[OF w True]
  have v: "windowed lo hi (Fin g) = NaN \<or> windowed lo hi (Fin g) = Fin 0" by simp
  then have "toUint8Clamped (windowed lo hi (Fin g)) = 0" by (auto simp: rne_zero)
  with True v show ?thesis by blast
next
  case False
  then obtain m M where lo: "lo = Fin m" and hi: "hi = Fin M" by blast
  from w have mg: "m < g" and gM: "g < M" by (simp_all add: lo hi js_ge_def)
  from n have d: "is_double m" "is_double M" by (simp_all add: lo hi)
  from windowed_finite[OF d g(2,3) mg gM]
  have v: "windowed (Fin m) (Fin M) (Fin g) = Fin (of_int (linearValue m M g))"
    and r: "0 \<le> linearValue m M g" "linearValue m M g \<le> 255" by simp_all
  from toUint8Clamped_int[OF r] v
  have "uint (toUint8Clamped (windowed (Fin m) (Fin M) (Fin g))) = linearValue m M g" by simp
  with v r mg gM show ?thesis unfolding lo hi by blast
qed

lemma stored_255: "uint (toUint8Clamped (Fin 255)) = 255"
  using toUint8Clamped_int[of 255] by simp

lemma stored_0: "uint (toUint8Clamped (Fin 0)) = 0"
  using toUint8Clamped_int[of 0] by simp

lemma stored_range: "0 \<le> uint (w :: u8) \<and> uint w \<le> 255"
proof -
  have "uint w < 2 ^ 8" using uint_bounded[of w] by simp
  then show ?thesis by simp
qed

lemma stored_mono:
  assumes n: "is_number lo" "is_number hi"
    and g1: "is_double g1" "0 \<le> g1" "g1 \<le> 255"
    and g2: "is_double g2" "0 \<le> g2" "g2 \<le> 255"
    and le: "g1 \<le> g2"
    and v1: "newValue lo hi (Fin g1) = Inr v1"
    and v2: "newValue lo hi (Fin g2) = Inr v2"
  shows "uint (toUint8Clamped v1) \<le> uint (toUint8Clamped v2)"
proof (cases "js_le (Fin g1) lo")
  case True
  with v1 have "v1 = Fin 0" by (simp add: newValue_eq[OF n])
  then show ?thesis by (simp add: stored_0)
next
  case nle1: False
  have nle2: "\<not> js_le (Fin g2) lo" using nle1 le by (cases lo) auto
  show ?thesis
  proof (cases "js_ge (Fin g2) hi")
    case True
    with nle2 v2 have "v2 = Fin 255" by (simp add: newValue_eq[OF n])
    then show ?thesis using stored_range[of "toUint8Clamped v1"] by (simp add: stored_255)
  next
    case nge2: False
    have nge1: "\<not> js_ge (Fin g1) hi" using nge2 le by (cases hi) (auto simp: js_ge_def)
    from v1 nle1 nge1 have w1: "v1 = windowed lo hi (Fin g1)" by (simp add: newValue_eq[OF n])
    from v2 nle2 nge2 have w2: "v2 = windowed lo hi (Fin g2)" by (simp add: newValue_eq[OF n])
    from linear_branch[OF n g1 nle1 nge1] linear_branch[OF n g2 nle2 nge2]
    show ?thesis
    proof (elim disjE exE conjE)
      fix m M m' M'
      assume a: "lo = Fin m" "hi = Fin M" "m < g1" "g2 < M'" "lo = Fin m'" "hi = Fin M'"
        and s1: "uint (toUint8Clamped (windowed lo hi (Fin g1))) = linearValue m M g1"
        and s2: "uint (toUint8Clamped (windowed lo hi (Fin g2))) = linearValue m' M' g2"
      from a have e: "m' = m" "M' = M" by simp_all
      from n a have d: "is_double m" "is_double M" by simp_all
      from linear_mono[OF d a(3) le] a(4) e have "linearValue m M g1 \<le> linearValue m M g2" by simp
      with s1 s2 e show ?thesis by (simp add: w1 w2)
    next
      assume "toUint8Clamped (windowed lo hi (Fin g1)) = 0"
      then show ?thesis by (simp add: w1)
    qed (auto simp: w1 w2)
  qed
qed

subsection \<open>A positive width\<close>

lemma half_width_nonneg:
  assumes "js_lt (Fin 0) ww"
  shows "ieee_div ww (Fin 2) = PInf \<or> (\<exists>h. ieee_div ww (Fin 2) = Fin h \<and> 0 \<le> h)"
proof (cases ww)
  case (Fin w)
  with assms have "0 \<le> w / 2" by simp
  then have r: "rnd 0 \<le> rnd (w / 2)" by (rule rnd_mono)
  show ?thesis
    by (rule fin_cases[of "w / 2"]) (use r in \<open>auto simp: Fin\<close>)
qed (use assms in simp_all)

lemma window_ordered:
  assumes "js_lt (Fin 0) ww"
  shows "windowMinOf ww wl = NaN \<or> windowMaxOf ww wl = NaN \<or>
         js_le (windowMinOf ww wl) (windowMaxOf ww wl)"
proof -
  from half_width_nonneg[OF assms]
  consider "ieee_div ww (Fin 2) = PInf" | h where "ieee_div ww (Fin 2) = Fin h" "0 \<le> h" by blast
  then show ?thesis
  proof cases
    case 1
    then show ?thesis by (cases wl) (simp_all add: windowMinOf_def windowMaxOf_def)
  next
    case 2
    show ?thesis
    proof (cases wl)
      case (Fin l)
      from 2 have "l - h \<le> l + h" by simp
      from fin_mono[OF this] show ?thesis by (simp add: windowMinOf_def windowMaxOf_def 2 Fin)
    qed (simp_all add: windowMinOf_def windowMaxOf_def 2)
  qed
qed

lemma window_collapse:
  assumes "lo = NaN \<or> hi = NaN \<or> js_le lo hi"
    and "js_le (Fin g) lo" "js_ge (Fin g) hi"
  shows "lo = Fin g \<and> hi = Fin g"
  using assms by (cases lo; cases hi) (auto simp: js_ge_def)

lemma is_number_window [simp]:
  "is_number (windowMinOf ww wl)" "is_number (windowMaxOf ww wl)"
  by (simp_all add: windowMinOf_def windowMaxOf_def)

lemma fin_not_NaN [simp]: "fin x \<noteq> NaN"
  by (rule fin_cases[of x]) simp_all

lemma finite_window_not_NaN:
  "windowMinOf (Fin w) (Fin l) \<noteq> NaN \<and> windowMaxOf (Fin w) (Fin l) \<noteq> NaN"
proof -
  have "ieee_div (Fin w) (Fin 2) \<noteq> NaN" by simp
  moreover have "js_sub (Fin l) h \<noteq> NaN" if "h \<noteq> NaN" for h
    using that by (cases h) simp_all
  moreover have "js_add (Fin l) h \<noteq> NaN" if "h \<noteq> NaN" for h
    using that by (cases h) simp_all
  ultimately show ?thesis by (simp add: windowMinOf_def windowMaxOf_def)
qed

subsection \<open>The loop over the raster\<close>

lemma windowLevelLoop_spec:
  assumes "is_number windowMin" "is_number windowMax"
  shows "\<exists>out. windowLevelLoop windowMin windowMax i data = Inr out \<and> length out = length data \<and>
     (\<forall>k<length data.
        (k < i \<longrightarrow> out ! k = data ! k) \<and>
        (i \<le> k \<longrightarrow> (k - i) mod 4 = 3 \<longrightarrow> out ! k = data ! k) \<and>
        (i \<le> k \<longrightarrow> (k - i) mod 4 \<noteq> 3 \<longrightarrow>
           (\<exists>v. newValue windowMin windowMax (sample (data ! (k - (k - i) mod 4))) = Inr v \<and>
                out ! k = toUint8Clamped v)))"
  using assms
proof (induction windowMin windowMax i data rule: windowLevelLoop.induct)
  case (1 windowMin windowMax i data)
  note n = "1.prems"
  show ?case
  proof (cases "i < length data")
    case False
    then show ?thesis by simp
  next
    case True
    obtain g where g: "sample (data ! i) = Fin g" by (rule sample_cases)
    obtain v where v: "newValue windowMin windowMax (sample (data ! i)) = Inr v"
      using newValue_total[OF n, of g] g by auto
    define c where "c = toUint8Clamped v"
    define data' where "data' = data[i := c, i + 1 := c, i + 2 := c]"
    have len': "length data' = length data" by (simp add: data'_def)
    from "1.IH"[OF True v n] obtain out where
      run: "windowLevelLoop windowMin windowMax (i + 4) data' = Inr out" and
      len: "length out = length data'" and
      out: "\<And>k. k < length data' \<Longrightarrow>
        (k < i + 4 \<longrightarrow> out ! k = data' ! k) \<and>
        (i + 4 \<le> k \<longrightarrow> (k - (i + 4)) mod 4 = 3 \<longrightarrow> out ! k = data' ! k) \<and>
        (i + 4 \<le> k \<longrightarrow> (k - (i + 4)) mod 4 \<noteq> 3 \<longrightarrow>
           (\<exists>v. newValue windowMin windowMax (sample (data' ! (k - (k - (i + 4)) mod 4))) = Inr v \<and>
                out ! k = toUint8Clamped v))"
      unfolding data'_def c_def by blast
    have eq: "windowLevelLoop windowMin windowMax i data = Inr out"
      using True v run by (subst windowLevelLoop.simps) (simp add: data'_def c_def)
    have far: "\<And>m. i + 3 \<le> m \<Longrightarrow> data' ! m = data ! m"
      by (simp add: data'_def)
    have near: "\<And>m. m < i \<Longrightarrow> data' ! m = data ! m"
      by (simp add: data'_def)
    have at: "data' ! m = c" if "i \<le> m" "m < i + 3" "m < length data" for m
    proof -
      from that consider "m = i" | "m = Suc i" | "m = Suc (Suc i)" by linarith
      then show ?thesis using that(3) by cases (simp_all add: data'_def nth_list_update)
    qed
    have "\<forall>k<length data.
        (k < i \<longrightarrow> out ! k = data ! k) \<and>
        (i \<le> k \<longrightarrow> (k - i) mod 4 = 3 \<longrightarrow> out ! k = data ! k) \<and>
        (i \<le> k \<longrightarrow> (k - i) mod 4 \<noteq> 3 \<longrightarrow>
           (\<exists>v. newValue windowMin windowMax (sample (data ! (k - (k - i) mod 4))) = Inr v \<and>
                out ! k = toUint8Clamped v))"
    proof (intro allI impI)
      fix k assume k: "k < length data"
      then have k': "k < length data'" by (simp add: len')
      consider "k < i" | "i \<le> k" "k < i + 3" | "k = i + 3" | "i + 4 \<le> k" by linarith
      then show "(k < i \<longrightarrow> out ! k = data ! k) \<and>
        (i \<le> k \<longrightarrow> (k - i) mod 4 = 3 \<longrightarrow> out ! k = data ! k) \<and>
        (i \<le> k \<longrightarrow> (k - i) mod 4 \<noteq> 3 \<longrightarrow>
           (\<exists>v. newValue windowMin windowMax (sample (data ! (k - (k - i) mod 4))) = Inr v \<and>
                out ! k = toUint8Clamped v))"
      proof cases
        case 1
        with out[OF k'] near show ?thesis by simp
      next
        case 2
        then have m: "(k - i) mod 4 = k - i" "k - i < 3" by simp_all
        from 2 out[OF k'] at[OF _ _ k] have "out ! k = c" by simp
        moreover from 2 m have "k - (k - i) mod 4 = i" by simp
        ultimately show ?thesis using 2 m v by (simp add: c_def)
      next
        case 3
        with out[OF k'] far show ?thesis by simp
      next
        case 4
        then obtain d where d: "k = i + 4 + d" by (metis le_Suc_ex)
        have m: "(k - i) mod 4 = d mod 4" "(k - (i + 4)) mod 4 = d mod 4"
          by (simp_all add: d)
        have "i + 3 \<le> k - d mod 4" using d by (simp add: trans_le_add1 mod_le_divisor [of 4 d] le_diff_conv2)
        then have "data' ! (k - d mod 4) = data ! (k - d mod 4)" by (rule far)
        moreover from 4 far have "data' ! k = data ! k" by simp
        ultimately show ?thesis using 4 out[OF k'] m by simp
      qed
    qed
    with eq len len' show ?thesis by simp
  qed
qed

lemma applyWindowLevel_samples:
  "\<exists>out. applyWindowLevel data ww wl = Inr out \<and> length out = length data \<and>
     (\<forall>k<length data.
        (k mod 4 = 3 \<longrightarrow> out ! k = data ! k) \<and>
        (k mod 4 \<noteq> 3 \<longrightarrow>
           (\<exists>v. newValue (windowMinOf ww wl) (windowMaxOf ww wl) (sample (data ! (k - k mod 4))) = Inr v \<and>
                out ! k = toUint8Clamped v)))"
proof -
  have n: "is_number (windowMinOf ww wl)" "is_number (windowMaxOf ww wl)" by simp_all
  from windowLevelLoop_spec[OF n, of 0 data] show ?thesis
    unfolding applyWindowLevel_def Let_def by (simp del: windowLevelLoop.simps)
qed

subsection \<open>Evaluating the transform\<close>

lemma rnd_numeral: "numeral n < (2::nat) ^ 53 \<Longrightarrow> rnd (numeral n) = numeral n"
  using is_double_of_nat[of "numeral n"] by (simp add: is_double_def)

lemma rnd_fact_0: "rnd (6646139978924579 / 1329227995784915872903807060280344576) = 6646139978924579 / 1329227995784915872903807060280344576"
  by (subst rnd_eval[where e = "- 68"]) (simp_all add: powi_eval rne_fraction Let_def)

lemma rnd_fact_1: "rnd (1 / 100000000000000000000) = 6646139978924579 / 664613997892457936451903530140172288"
  by (subst rnd_eval[where e = "- 67"]) (simp_all add: powi_eval rne_fraction Let_def)

lemma rnd_fact_2: "rnd (900719925474099 / 9007199254740992) = 900719925474099 / 9007199254740992"
  by (subst rnd_eval[where e = "- 4"]) (simp_all add: powi_eval rne_fraction Let_def)

lemma rnd_fact_3: "rnd (3602879701896397 / 36028797018963968) = 3602879701896397 / 36028797018963968"
  by (subst rnd_eval[where e = "- 4"]) (simp_all add: powi_eval rne_fraction Let_def)

lemma rnd_fact_4: "rnd (1 / 5) = 3602879701896397 / 18014398509481984"
  by (subst rnd_eval[where e = "- 3"]) (simp_all add: powi_eval rne_fraction Let_def)

lemma rnd_fact_5: "rnd (1801439850948199 / 9007199254740992) = 1801439850948199 / 9007199254740992"
  by (subst rnd_eval[where e = "- 3"]) (simp_all add: powi_eval rne_fraction Let_def)

lemma rnd_fact_6: "rnd (1 / 4) = 1 / 4"
  by (subst rnd_eval[where e = "- 2"]) (simp_all add: powi_eval rne_fraction Let_def)

lemma rnd_fact_7: "rnd (900719925474099 / 1801439850948199) = 9007199254740987 / 18014398509481984"
  by (subst rnd_eval[where e = "- 2"]) (simp_all add: powi_eval rne_fraction Let_def)

lemma rnd_fact_8: "rnd (1 / 2) = 1 / 2"
  by (subst rnd_eval[where e = "- 1"]) (simp_all add: powi_eval rne_fraction Let_def)

lemma rnd_fact_9: "rnd (5 / 8) = 5 / 8"
  by (subst rnd_eval[where e = "- 1"]) (simp_all add: powi_eval rne_fraction Let_def)

lemma rnd_fact_10: "rnd (17 / 20) = 7656119366529843 / 9007199254740992"
  by (subst rnd_eval[where e = "- 1"]) (simp_all add: powi_eval rne_fraction Let_def)

lemma rnd_fact_11: "rnd (32425917317067571 / 36028797018963968) = 8106479329266893 / 9007199254740992"
  by (subst rnd_eval[where e = "- 1"]) (simp_all add: powi_eval rne_fraction Let_def)

lemma rnd_fact_12: "rnd (39631676720860365 / 36028797018963968) = 2476979795053773 / 2251799813685248"
  by (subst rnd_eval[where e = "0"]) (simp_all add: powi_eval rne_fraction Let_def)

lemma rnd_fact_13: "rnd (66461399789245793645183706874038304221 / 1329227995784915872903807060280344576) = 50"
  by (subst rnd_eval[where e = "5"]) (simp_all add: powi_eval rne_fraction Let_def)

lemma rnd_fact_14: "rnd (66461399789245793645196999153996153379 / 1329227995784915872903807060280344576) = 50"
  by (subst rnd_eval[where e = "5"]) (simp_all add: powi_eval rne_fraction Let_def)

lemma rnd_fact_15: "rnd (255 / 4) = 255 / 4"
  by (subst rnd_eval[where e = "5"]) (simp_all add: powi_eval rne_fraction Let_def)

lemma rnd_fact_16: "rnd (2296835809958951685 / 18014398509481984) = 8972014882652155 / 70368744177664"
  by (subst rnd_eval[where e = "6"]) (simp_all add: powi_eval rne_fraction Let_def)

lemma rnd_fact_17: "rnd (255 / 2) = 255 / 2"
  by (subst rnd_eval[where e = "6"]) (simp_all add: powi_eval rne_fraction Let_def)

lemma rnd_fact_18: "rnd (1275 / 8) = 1275 / 8"
  by (subst rnd_eval[where e = "7"]) (simp_all add: powi_eval rne_fraction Let_def)

lemma rnd_fact_19: "rnd (1952310438465109965 / 9007199254740992) = 867 / 4"
  by (subst rnd_eval[where e = "7"]) (simp_all add: powi_eval rne_fraction Let_def)

lemma rnd_fact_20: "rnd (576460752303423478) = 576460752303423488"
  by (subst rnd_eval[where e = "58"]) (simp_all add: powi_eval rne_fraction Let_def)

lemma rnd_fact_21: "rnd (576460752303423488) = 576460752303423488"
  by (subst rnd_eval[where e = "59"]) (simp_all add: powi_eval rne_fraction Let_def)

lemma rnd_fact_22: "rnd (576460752303423493) = 576460752303423488"
  by (subst rnd_eval[where e = "59"]) (simp_all add: powi_eval rne_fraction Let_def)

lemma rnd_fact_23: "rnd (576460752303423498) = 576460752303423488"
  by (subst rnd_eval[where e = "59"]) (simp_all add: powi_eval rne_fraction Let_def)

lemma rnd_fact_24: "rnd (1152921504606846976) = 1152921504606846976"
  by (subst rnd_eval[where e = "60"]) (simp_all add: powi_eval rne_fraction Let_def)

lemmas rnd_facts = rnd_fact_0 rnd_fact_1 rnd_fact_2 rnd_fact_3 rnd_fact_4 rnd_fact_5 rnd_fact_6 rnd_fact_7 rnd_fact_8 rnd_fact_9 rnd_fact_10 rnd_fact_11 rnd_fact_12 rnd_fact_13 rnd_fact_14 rnd_fact_15 rnd_fact_16 rnd_fact_17 rnd_fact_18 rnd_fact_19 rnd_fact_20 rnd_fact_21 rnd_fact_22 rnd_fact_23 rnd_fact_24

lemmas window_eval =
  applyWindowLevel_def windowMinOf_def windowMaxOf_def newValue_def js_divide_def js_ge_def
  sample_def fin_def Let_def rnd_minus rnd_numeral rnd_facts floor_fraction rne_fraction

subsection \<open>The transform on a raster\<close>

text \<open>
  C1. For every raster and every window with \<open>windowWidth > 0\<close>, the value written for a
  gray sample is 0 when \<open>gray \<le> windowLevel - windowWidth / 2\<close>, 255 when
  \<open>gray \<ge> windowLevel + windowWidth / 2\<close>, and
  \<open>round ((gray - windowMin) / (windowMax - windowMin) * 255)\<close> otherwise.
  Not so. The code computes in doubles, and the rounded quotient can fall on the other
  side of a half: at gray 1, width 0.2 and level 1 the code writes 127 where the formula
  gives 128, and at gray 5, width \<open>2 ^ 60\<close> and level 10 the code writes 128 where the
  formula gives 127. And a positive width can vanish against the level: at width
  \<open>1e-20\<close> and level 50 both \<open>windowMin\<close> and \<open>windowMax\<close> are 50, so the sample 50 is at
  or above \<open>windowMax\<close> and yet the first branch writes 0 for it, where the formula
  gives 128.
\<close>

theorem applyWindowLevel_rounding_counterexample:
  "js_lt (Fin 0) (fin (1 / 5)) \<and>
   fin (1 / 5) = Fin (3602879701896397 / 18014398509481984) \<and>
   applyWindowLevel [1, 1, 1, 255] (fin (1 / 5)) (Fin 1) = Inr [127, 127, 127, 255] \<and>
   specValue (3602879701896397 / 18014398509481984) 1 1 = 128 \<and>
   js_lt (Fin 0) (Fin (2 ^ 60)) \<and>
   applyWindowLevel [5, 5, 5, 255] (Fin (2 ^ 60)) (Fin 10) = Inr [128, 128, 128, 255] \<and>
   specValue (2 ^ 60) 10 5 = 127 \<and>
   js_lt (Fin 0) (fin (1 / 10 ^ 20)) \<and>
   fin (1 / 10 ^ 20) = Fin (6646139978924579 / 664613997892457936451903530140172288) \<and>
   windowMinOf (fin (1 / 10 ^ 20)) (Fin 50) = Fin 50 \<and>
   windowMaxOf (fin (1 / 10 ^ 20)) (Fin 50) = Fin 50 \<and>
   js_ge (sample 50) (windowMaxOf (fin (1 / 10 ^ 20)) (Fin 50)) \<and>
   applyWindowLevel [50, 50, 50, 255] (fin (1 / 10 ^ 20)) (Fin 50) = Inr [0, 0, 0, 255] \<and>
   specValue (6646139978924579 / 664613997892457936451903530140172288) 50 50 = 128"
proof -
  have a: "applyWindowLevel [1, 1, 1, 255] (fin (1 / 5)) (Fin 1) = Inr [127, 127, 127, 255]"
    by (simp add: window_eval)
  have b: "applyWindowLevel [50, 50, 50, 255] (fin (1 / 10 ^ 20)) (Fin 50) = Inr [0, 0, 0, 255]"
    by (simp add: window_eval)
  have c: "fin (1 / 5) = Fin (3602879701896397 / 18014398509481984)"
    "fin (1 / 10 ^ 20) = Fin (6646139978924579 / 664613997892457936451903530140172288)"
    by (simp_all add: window_eval)
  have d: "windowMinOf (fin (1 / 10 ^ 20)) (Fin 50) = Fin 50"
    "windowMaxOf (fin (1 / 10 ^ 20)) (Fin 50) = Fin 50"
    "js_ge (sample 50) (windowMaxOf (fin (1 / 10 ^ 20)) (Fin 50))"
    by (simp_all add: window_eval)
  have e: "specValue (3602879701896397 / 18014398509481984) 1 1 = 128"
    "specValue (6646139978924579 / 664613997892457936451903530140172288) 50 50 = 128"
    "specValue (2 ^ 60) 10 5 = 127"
    by (simp_all add: specValue_def Let_def round_def floor_fraction)
  have f: "applyWindowLevel [5, 5, 5, 255] (Fin (2 ^ 60)) (Fin 10) = Inr [128, 128, 128, 255]"
    by (simp add: window_eval)
  have g: "js_lt (Fin 0) (fin (1 / 5))" "js_lt (Fin 0) (Fin (2 ^ 60))"
    "js_lt (Fin 0) (fin (1 / 10 ^ 20))"
    by (simp_all add: window_eval)
  from a b c d e f g show ?thesis by (simp only: simp_thms)
qed

text \<open>
  C1, as amended. For every raster, every level and every width greater than 0,
  \<open>applyWindowLevel\<close> returns a raster of the same length that keeps every fourth
  sample (alpha) and gives the three colour samples of a pixel one value \<open>v\<close>, computed
  from the pixel's first sample \<open>gray\<close> and the doubles
  \<open>windowMin = windowLevel - windowWidth / 2\<close> and \<open>windowMax = windowLevel + windowWidth / 2\<close>:
  \<^item> \<open>v\<close> is in 0..255 and does not decrease when the gray sample grows;
  \<^item> \<open>v = 0\<close> when \<open>gray \<le> windowMin\<close>;
  \<^item> \<open>v = 255\<close> when \<open>gray \<ge> windowMax\<close>, unless the window has collapsed onto the
    sample (\<open>windowMin = windowMax = gray\<close>), where \<open>v = 0\<close>;
  \<^item> otherwise \<open>v\<close> is what the array keeps of
    \<open>Math.round(((gray - windowMin) / (windowMax - windowMin)) * 255)\<close> evaluated in double
    arithmetic, every operation rounded: that integer itself when both bounds are
    finite, and 0 when one of them is infinite or \<open>NaN\<close>.
\<close>

theorem applyWindowLevel_window_transform:
  assumes "js_lt (Fin 0) ww"
  shows "\<exists>out. applyWindowLevel data ww wl = Inr out \<and> length out = length data \<and>
     (\<forall>k<length data. k mod 4 = 3 \<longrightarrow> out ! k = data ! k) \<and>
     (\<forall>k<length data. k mod 4 \<noteq> 3 \<longrightarrow> out ! k = out ! (k - k mod 4)) \<and>
     (\<forall>p. 4 * p < length data \<longrightarrow>
        (let gray = sample (data ! (4 * p));
             windowMin = windowMinOf ww wl;
             windowMax = windowMaxOf ww wl;
             v = uint (out ! (4 * p))
         in 0 \<le> v \<and> v \<le> 255 \<and>
            (js_le gray windowMin \<longrightarrow> v = 0) \<and>
            (js_ge gray windowMax \<longrightarrow>
               v = 255 \<or> (windowMin = gray \<and> windowMax = gray \<and> v = 0)) \<and>
            (\<not> js_le gray windowMin \<and> \<not> js_ge gray windowMax \<longrightarrow>
               out ! (4 * p) = toUint8Clamped (windowed windowMin windowMax gray) \<and>
               ((\<exists>m M. windowMin = Fin m \<and> windowMax = Fin M) \<longrightarrow>
                  windowed windowMin windowMax gray = Fin (of_int v)) \<and>
               (\<not> (\<exists>m M. windowMin = Fin m \<and> windowMax = Fin M) \<longrightarrow> v = 0)) \<and>
            (\<forall>q. 4 * q < length data \<and> unat (data ! (4 * p)) \<le> unat (data ! (4 * q)) \<longrightarrow>
               v \<le> uint (out ! (4 * q)))))"
proof -
  define lo where "lo = windowMinOf ww wl"
  define hi where "hi = windowMaxOf ww wl"
  have n: "is_number lo" "is_number hi" by (simp_all add: lo_def hi_def)
  have ord: "lo = NaN \<or> hi = NaN \<or> js_le lo hi"
    using window_ordered[OF assms, of wl] by (simp add: lo_def hi_def)
  from applyWindowLevel_samples[of data ww wl] obtain out where
    run: "applyWindowLevel data ww wl = Inr out" and
    len: "length out = length data" and
    alpha: "\<And>k. k < length data \<Longrightarrow> k mod 4 = 3 \<Longrightarrow> out ! k = data ! k" and
    colour: "\<And>k. k < length data \<Longrightarrow> k mod 4 \<noteq> 3 \<Longrightarrow>
        \<exists>v. newValue lo hi (sample (data ! (k - k mod 4))) = Inr v \<and> out ! k = toUint8Clamped v"
    unfolding lo_def hi_def by blast
  have first: "\<exists>v. newValue lo hi (sample (data ! (4 * p))) = Inr v \<and> out ! (4 * p) = toUint8Clamped v"
    if "4 * p < length data" for p
    using colour[OF that] by simp
  have same: "out ! k = out ! (k - k mod 4)" if k: "k < length data" "k mod 4 \<noteq> 3" for k
  proof -
    have b: "k - k mod 4 = 4 * (k div 4)" by (simp add: minus_mod_eq_mult_div)
    have "4 * (k div 4) \<le> k" by simp
    with k have lt: "4 * (k div 4) < length data" by linarith
    from colour[OF k] first[OF lt] show ?thesis by (auto simp: b)
  qed
  have px: "let gray = sample (data ! (4 * p));
             windowMin = lo;
             windowMax = hi;
             v = uint (out ! (4 * p))
         in 0 \<le> v \<and> v \<le> 255 \<and>
            (js_le gray windowMin \<longrightarrow> v = 0) \<and>
            (js_ge gray windowMax \<longrightarrow>
               v = 255 \<or> (windowMin = gray \<and> windowMax = gray \<and> v = 0)) \<and>
            (\<not> js_le gray windowMin \<and> \<not> js_ge gray windowMax \<longrightarrow>
               out ! (4 * p) = toUint8Clamped (windowed windowMin windowMax gray) \<and>
               ((\<exists>m M. windowMin = Fin m \<and> windowMax = Fin M) \<longrightarrow>
                  windowed windowMin windowMax gray = Fin (of_int v)) \<and>
               (\<not> (\<exists>m M. windowMin = Fin m \<and> windowMax = Fin M) \<longrightarrow> v = 0)) \<and>
            (\<forall>q. 4 * q < length data \<and> unat (data ! (4 * p)) \<le> unat (data ! (4 * q)) \<longrightarrow>
               v \<le> uint (out ! (4 * q)))"
    if p: "4 * p < length data" for p
  proof -
    obtain g where g: "sample (data ! (4 * p)) = Fin g" "is_double g" "0 \<le> g" "g \<le> 255"
      "g = of_nat (unat (data ! (4 * p)))" by (rule sample_cases)
    from first[OF p] obtain v where
      nv: "newValue lo hi (Fin g) = Inr v" and o: "out ! (4 * p) = toUint8Clamped v"
      by (auto simp: g(1))
    note eq = nv[unfolded newValue_eq[OF n]]
    have r: "0 \<le> uint (out ! (4 * p)) \<and> uint (out ! (4 * p)) \<le> 255" by (rule stored_range)
    have low: "js_le (Fin g) lo \<longrightarrow> uint (out ! (4 * p)) = 0"
      using eq o by (auto simp: stored_0)
    have high: "js_ge (Fin g) hi \<longrightarrow>
        uint (out ! (4 * p)) = 255 \<or> (lo = Fin g \<and> hi = Fin g \<and> uint (out ! (4 * p)) = 0)"
    proof
      assume ge: "js_ge (Fin g) hi"
      show "uint (out ! (4 * p)) = 255 \<or> (lo = Fin g \<and> hi = Fin g \<and> uint (out ! (4 * p)) = 0)"
      proof (cases "js_le (Fin g) lo")
        case True
        from window_collapse[OF ord True ge] low True show ?thesis by simp
      next
        case False
        with ge eq o show ?thesis by (auto simp: stored_255)
      qed
    qed
    have mid: "\<not> js_le (Fin g) lo \<and> \<not> js_ge (Fin g) hi \<longrightarrow>
               out ! (4 * p) = toUint8Clamped (windowed lo hi (Fin g)) \<and>
               ((\<exists>m M. lo = Fin m \<and> hi = Fin M) \<longrightarrow>
                  windowed lo hi (Fin g) = Fin (of_int (uint (out ! (4 * p))))) \<and>
               (\<not> (\<exists>m M. lo = Fin m \<and> hi = Fin M) \<longrightarrow> uint (out ! (4 * p)) = 0)"
    proof
      assume w: "\<not> js_le (Fin g) lo \<and> \<not> js_ge (Fin g) hi"
      then have w1: "\<not> js_le (Fin g) lo" and w2: "\<not> js_ge (Fin g) hi" by simp_all
      from eq w have v: "v = windowed lo hi (Fin g)" by simp
      from linear_branch[OF n g(2-4) w1 w2]
      consider (finite) m M where "lo = Fin m" "hi = Fin M"
          "windowed lo hi (Fin g) = Fin (of_int (linearValue m M g))"
          "uint (toUint8Clamped (windowed lo hi (Fin g))) = linearValue m M g"
        | (special) "(\<forall>m. lo \<noteq> Fin m) \<or> (\<forall>M. hi \<noteq> Fin M)"
          "toUint8Clamped (windowed lo hi (Fin g)) = 0"
        by blast
      then have "((\<exists>m M. lo = Fin m \<and> hi = Fin M) \<longrightarrow>
                  windowed lo hi (Fin g) = Fin (of_int (uint (toUint8Clamped (windowed lo hi (Fin g)))))) \<and>
               (\<not> (\<exists>m M. lo = Fin m \<and> hi = Fin M) \<longrightarrow>
                  uint (toUint8Clamped (windowed lo hi (Fin g))) = 0)"
      proof cases
        case finite
        have "windowed lo hi (Fin g) = Fin (of_int (uint (toUint8Clamped (windowed lo hi (Fin g)))))"
          unfolding finite(4) by (rule finite(3))
        with finite(1,2) show ?thesis by blast
      next
        case special
        from special(2) have "uint (toUint8Clamped (windowed lo hi (Fin g))) = 0"
          by (simp only: uint_0_eq)
        with special(1) show ?thesis by blast
      qed
      then show "out ! (4 * p) = toUint8Clamped (windowed lo hi (Fin g)) \<and>
               ((\<exists>m M. lo = Fin m \<and> hi = Fin M) \<longrightarrow>
                  windowed lo hi (Fin g) = Fin (of_int (uint (out ! (4 * p))))) \<and>
               (\<not> (\<exists>m M. lo = Fin m \<and> hi = Fin M) \<longrightarrow> uint (out ! (4 * p)) = 0)"
        unfolding o v by blast
    qed
    have mono: "uint (out ! (4 * p)) \<le> uint (out ! (4 * q))"
      if "4 * q < length data \<and> unat (data ! (4 * p)) \<le> unat (data ! (4 * q))" for q
    proof -
      from that have q: "4 * q < length data"
        and le: "unat (data ! (4 * p)) \<le> unat (data ! (4 * q))" by simp_all
      obtain h where h: "sample (data ! (4 * q)) = Fin h" "is_double h" "0 \<le> h" "h \<le> 255"
        "h = of_nat (unat (data ! (4 * q)))" by (rule sample_cases)
      from first[OF q] obtain u where
        nu: "newValue lo hi (Fin h) = Inr u" and ou: "out ! (4 * q) = toUint8Clamped u"
        by (auto simp: h(1))
      have "g \<le> h" unfolding g(5) h(5) using le by (rule of_nat_mono)
      from stored_mono[OF n g(2-4) h(2-4) this nv nu] show ?thesis by (simp only: o ou)
    qed
    from r low high mid mono show ?thesis
      unfolding Let_def g(1) by blast
  qed
  from run len alpha same px show ?thesis unfolding lo_def hi_def by blast
qed

theorem applyWindowLevel_window_transform_witness:
  "js_lt (Fin 0) (Fin 100) \<and>
   applyWindowLevel [100, 100, 100, 255, 200, 0, 0, 7, 20, 30, 40, 50, 75, 1, 2, 3] (Fin 100) (Fin 100)
     = Inr [128, 128, 128, 255, 255, 255, 255, 7, 0, 0, 0, 50, 64, 64, 64, 3] \<and>
   windowMinOf (Fin 100) (Fin 100) = Fin 50 \<and> windowMaxOf (Fin 100) (Fin 100) = Fin 150 \<and>
   windowed (Fin 50) (Fin 150) (Fin 100) = Fin 128 \<and>
   js_lt (Fin 0) PInf \<and>
   windowMinOf PInf (Fin 50) = NInf \<and> windowMaxOf PInf (Fin 50) = PInf \<and>
   applyWindowLevel [7, 7, 7, 255] PInf (Fin 50) = Inr [0, 0, 0, 255]"
proof -
  have h: "js_lt (Fin 0) (Fin 100)" "js_lt (Fin 0) PInf" by simp_all
  have e: "applyWindowLevel [100, 100, 100, 255, 200, 0, 0, 7, 20, 30, 40, 50, 75, 1, 2, 3] (Fin 100) (Fin 100)
     = Inr [128, 128, 128, 255, 255, 255, 255, 7, 0, 0, 0, 50, 64, 64, 64, 3]"
    by (simp add: window_eval)
  have i: "applyWindowLevel [7, 7, 7, 255] PInf (Fin 50) = Inr [0, 0, 0, 255]"
    by (simp add: window_eval)
  have w: "windowMinOf (Fin 100) (Fin 100) = Fin 50" "windowMaxOf (Fin 100) (Fin 100) = Fin 150"
    "windowMinOf PInf (Fin 50) = NInf" "windowMaxOf PInf (Fin 50) = PInf"
    by (simp_all add: window_eval)
  have s: "sample 100 = Fin 100" "sample 7 = Fin 7" by (simp_all add: sample_def)
  from applyWindowLevel_window_transform[OF h(1),
      of "[100, 100, 100, 255, 200, 0, 0, 7, 20, 30, 40, 50, 75, 1, 2, 3]" "Fin 100"]
  obtain out where
    r: "applyWindowLevel [100, 100, 100, 255, 200, 0, 0, 7, 20, 30, 40, 50, 75, 1, 2, 3] (Fin 100) (Fin 100) = Inr out"
    and px: "\<forall>p. 4 * p < length [100, 100, 100, 255, 200, 0, 0, 7, 20, 30, 40, 50, 75, 1, 2, 3 :: u8] \<longrightarrow>
        (let gray = sample ([100, 100, 100, 255, 200, 0, 0, 7, 20, 30, 40, 50, 75, 1, 2, 3] ! (4 * p));
             windowMin = windowMinOf (Fin 100) (Fin 100);
             windowMax = windowMaxOf (Fin 100) (Fin 100);
             v = uint (out ! (4 * p))
         in 0 \<le> v \<and> v \<le> 255 \<and>
            (js_le gray windowMin \<longrightarrow> v = 0) \<and>
            (js_ge gray windowMax \<longrightarrow>
               v = 255 \<or> (windowMin = gray \<and> windowMax = gray \<and> v = 0)) \<and>
            (\<not> js_le gray windowMin \<and> \<not> js_ge gray windowMax \<longrightarrow>
               out ! (4 * p) = toUint8Clamped (windowed windowMin windowMax gray) \<and>
               ((\<exists>m M. windowMin = Fin m \<and> windowMax = Fin M) \<longrightarrow>
                  windowed windowMin windowMax gray = Fin (of_int v)) \<and>
               (\<not> (\<exists>m M. windowMin = Fin m \<and> windowMax = Fin M) \<longrightarrow> v = 0)) \<and>
            (\<forall>q. 4 * q < length [100, 100, 100, 255, 200, 0, 0, 7, 20, 30, 40, 50, 75, 1, 2, 3 :: u8] \<and>
                 unat ([100, 100, 100, 255, 200, 0, 0, 7, 20, 30, 40, 50, 75, 1, 2, 3 :: u8] ! (4 * p))
                   \<le> unat ([100, 100, 100, 255, 200, 0, 0, 7, 20, 30, 40, 50, 75, 1, 2, 3 :: u8] ! (4 * q)) \<longrightarrow>
               v \<le> uint (out ! (4 * q))))"
    by blast
  from r e have out: "out = [128, 128, 128, 255, 255, 255, 255, 7, 0, 0, 0, 50, 64, 64, 64, 3]"
    by simp
  from px[rule_format, of 0]
  have "\<not> js_le (sample 100) (Fin 50) \<and> \<not> js_ge (sample 100) (Fin 150) \<longrightarrow>
          ((\<exists>m M. Fin 50 = Fin m \<and> Fin 150 = Fin M) \<longrightarrow>
             windowed (Fin 50) (Fin 150) (sample 100) = Fin (of_int (uint (128 :: u8))))"
    unfolding Let_def w out by simp
  then have m: "windowed (Fin 50) (Fin 150) (Fin 100) = Fin 128"
    by (simp add: s js_ge_def)
  from applyWindowLevel_window_transform[OF h(2), of "[7, 7, 7, 255]" "Fin 50"]
  have l: "\<exists>out. applyWindowLevel [7, 7, 7, 255] PInf (Fin 50) = Inr out \<and> length out = length [7, 7, 7, 255 :: u8]"
    by blast
  from h e w m i l show ?thesis by simp
qed

text \<open>
  C10. For every gray sample and every window, a width of 0 included, the transform never
  divides by zero: the loop returns a raster for every input, the bounds of the window
  are numbers whatever the width and the level are, and for bounds that are numbers
  every sample gets a value, the one of the branch the comparisons choose. A zero divisor
  \<open>windowMax - windowMin\<close> can only meet a sample that one of the two clipping branches
  has taken before the division is reached; and when the division is reached with bounds
  that are not \<open>NaN\<close> (they never are for a finite width and level), the sample lies
  strictly between them and the divisor is greater than 0.
\<close>

theorem windowLevel_never_divides_by_zero:
  "(\<exists>out. applyWindowLevel data ww wl = Inr out) \<and>
   (\<exists>out. applyWindowLevel data (Fin 0) wl = Inr out) \<and>
   is_number (windowMinOf ww wl) \<and> is_number (windowMaxOf ww wl) \<and>
   windowMinOf (Fin w) (Fin l) \<noteq> NaN \<and> windowMaxOf (Fin w) (Fin l) \<noteq> NaN \<and>
   (is_number windowMin \<and> is_number windowMax \<longrightarrow>
      (\<exists>v. newValue windowMin windowMax (Fin gray) = Inr v) \<and>
      newValue windowMin windowMax (Fin gray) =
        (if js_le (Fin gray) windowMin then Inr (Fin 0)
         else if js_ge (Fin gray) windowMax then Inr (Fin 255)
         else Inr (windowed windowMin windowMax (Fin gray))) \<and>
      (js_divide (js_sub (Fin gray) windowMin) (js_sub windowMax windowMin) = Inl DivisionByZero \<longrightarrow>
         js_le (Fin gray) windowMin \<or> js_ge (Fin gray) windowMax) \<and>
      (\<not> js_le (Fin gray) windowMin \<and> \<not> js_ge (Fin gray) windowMax \<and>
       windowMin \<noteq> NaN \<and> windowMax \<noteq> NaN \<longrightarrow>
         js_lt windowMin (Fin gray) \<and> js_lt (Fin gray) windowMax \<and>
         js_lt (Fin 0) (js_sub windowMax windowMin)))"
proof -
  have a: "\<exists>out. applyWindowLevel data ww wl = Inr out"
    using applyWindowLevel_samples[of data ww wl] by blast
  have b: "\<exists>out. applyWindowLevel data (Fin 0) wl = Inr out"
    using applyWindowLevel_samples[of data "Fin 0" wl] by blast
  have c: "is_number (windowMinOf ww wl)" "is_number (windowMaxOf ww wl)" by simp_all
  note d = finite_window_not_NaN[of w l]
  have e: "(\<exists>v. newValue windowMin windowMax (Fin gray) = Inr v) \<and>
      newValue windowMin windowMax (Fin gray) =
        (if js_le (Fin gray) windowMin then Inr (Fin 0)
         else if js_ge (Fin gray) windowMax then Inr (Fin 255)
         else Inr (windowed windowMin windowMax (Fin gray))) \<and>
      (js_divide (js_sub (Fin gray) windowMin) (js_sub windowMax windowMin) = Inl DivisionByZero \<longrightarrow>
         js_le (Fin gray) windowMin \<or> js_ge (Fin gray) windowMax) \<and>
      (\<not> js_le (Fin gray) windowMin \<and> \<not> js_ge (Fin gray) windowMax \<and>
       windowMin \<noteq> NaN \<and> windowMax \<noteq> NaN \<longrightarrow>
         js_lt windowMin (Fin gray) \<and> js_lt (Fin gray) windowMax \<and>
         js_lt (Fin 0) (js_sub windowMax windowMin))"
    if n: "is_number windowMin \<and> is_number windowMax"
  proof -
    from n have n1: "is_number windowMin" and n2: "is_number windowMax" by simp_all
    have "js_divide (js_sub (Fin gray) windowMin) (js_sub windowMax windowMin) = Inl DivisionByZero \<longrightarrow>
         js_le (Fin gray) windowMin \<or> js_ge (Fin gray) windowMax"
      using divisor_not_zero[OF n1 n2, of gray] by (auto simp: js_divide_def)
    moreover have "\<not> js_le (Fin gray) windowMin \<and> \<not> js_ge (Fin gray) windowMax \<and>
       windowMin \<noteq> NaN \<and> windowMax \<noteq> NaN \<longrightarrow>
         js_lt windowMin (Fin gray) \<and> js_lt (Fin gray) windowMax \<and>
         js_lt (Fin 0) (js_sub windowMax windowMin)"
      using divisor_positive_window[OF n1 n2, of gray] by blast
    ultimately show ?thesis
      using newValue_total[OF n1 n2, of gray] newValue_eq[OF n1 n2, of gray] by blast
  qed
  from a b c d e show ?thesis by blast
qed

theorem windowLevel_never_divides_by_zero_witness:
  "is_number (Fin 50) \<and>
   js_divide (js_sub (Fin 10) (Fin 50)) (js_sub (Fin 50) (Fin 50)) = Inl DivisionByZero \<and>
   (js_le (Fin 10) (Fin 50) \<or> js_ge (Fin 10) (Fin 50)) \<and>
   newValue (Fin 50) (Fin 50) (Fin 10) = Inr (Fin 0) \<and>
   applyWindowLevel [10, 10, 10, 255, 50, 50, 50, 255, 51, 51, 51, 255] (Fin 0) (Fin 50)
     = Inr [0, 0, 0, 255, 0, 0, 0, 255, 255, 255, 255, 255] \<and>
   is_number (Fin 0) \<and> is_number (Fin 100) \<and>
   \<not> js_le (Fin 50) (Fin 0) \<and> \<not> js_ge (Fin 50) (Fin 100) \<and>
   js_lt (Fin 0) (js_sub (Fin 100) (Fin 0))"
proof -
  have n: "is_number (Fin 50)" "is_number (Fin 0)" "is_number (Fin 100)"
    by (simp_all add: is_double_def rnd_numeral)
  have e: "applyWindowLevel [10, 10, 10, 255, 50, 50, 50, 255, 51, 51, 51, 255] (Fin 0) (Fin 50)
     = Inr [0, 0, 0, 255, 0, 0, 0, 255, 255, 255, 255, 255]"
    by (simp add: window_eval)
  have d: "js_divide (js_sub (Fin 10) (Fin 50)) (js_sub (Fin 50) (Fin 50)) = Inl DivisionByZero"
    by (simp add: js_divide_def)
  have w: "\<not> js_le (Fin 50) (Fin 0)" "\<not> js_ge (Fin 50) (Fin 100)" by (simp_all add: js_ge_def)
  from windowLevel_never_divides_by_zero[of "[]" "Fin 0" "Fin 50" 0 50 "Fin 50" "Fin 50" 10] n d
  have c: "js_le (Fin 10) (Fin 50) \<or> js_ge (Fin 10) (Fin 50)"
    and v: "newValue (Fin 50) (Fin 50) (Fin 10) = Inr (Fin 0)"
    by simp_all
  from windowLevel_never_divides_by_zero[of "[]" "Fin 0" "Fin 50" 0 50 "Fin 0" "Fin 100" 50] n w
  have p: "js_lt (Fin 0) (js_sub (Fin 100) (Fin 0))" by blast
  from n d c v e w p show ?thesis by blast
qed

section \<open>Properties of the state store\<close>

lemma reachable_index_bounds:
  assumes "reachable state"
  shows "- 1 \<le> currentFrameIndex state \<and>
         currentFrameIndex state \<le> max 0 (int (length (frames state)) - 1) \<and>
         (frames state \<noteq> [] \<longrightarrow> 0 \<le> currentFrameIndex state)"
  using assms
proof (induction rule: reachable.induct)
  case reachable_init
  show ?case by (simp add: initialState_def)
next
  case (reachable_step state action)
  then show ?case by (cases action) auto
qed

lemma dicomReducer_keeps_bounds:
  assumes "frameIndexInBounds state" "action \<noteq> NEXT_FRAME \<or> frames state \<noteq> []"
  shows "frameIndexInBounds (dicomReducer state action)"
  using assms by (cases action) (auto simp: frameIndexInBounds_def split: if_splits)

lemma dicomReducer_cells_keeps_bounds:
  assumes "frameIndexInBounds state" "action \<noteq> NEXT_FRAME \<or> frames state \<noteq> []"
  shows "frameIndexInBounds (dicomReducer_cells state action)"
  using assms by (cases action) (auto simp: frameIndexInBounds_def split: if_splits)

text \<open>
  C2. Every state reachable from the initial state keeps \<open>currentFrameIndex\<close> within
  the bounds of the frame list, and every action preserves that. The two lemmas above
  give it for every action but one; \<open>NEXT_FRAME\<close> on an empty frame list, which the
  initial state has, computes \<open>min (0 + 1) (0 - 1)\<close> and leaves the index at -1, in both
  stores.
\<close>

theorem NEXT_FRAME_leaves_bounds_on_empty_frames:
  "reachable (dicomReducer initialState NEXT_FRAME) \<and>
   frames (dicomReducer initialState NEXT_FRAME) = [] \<and>
   currentFrameIndex (dicomReducer initialState NEXT_FRAME) = - 1 \<and>
   frames (dicomReducer_cells initialState_cells NEXT_FRAME) = [] \<and>
   currentFrameIndex (dicomReducer_cells initialState_cells NEXT_FRAME) = - 1 \<and>
   frameIndexInBounds initialState \<and>
   \<not> frameIndexInBounds (dicomReducer initialState NEXT_FRAME) \<and>
   frameIndexInBounds initialState_cells \<and>
   \<not> frameIndexInBounds (dicomReducer_cells initialState_cells NEXT_FRAME)"
proof -
  have "frameIndexInBounds initialState \<and>
      \<not> frameIndexInBounds (dicomReducer initialState NEXT_FRAME)"
    by (simp add: initialState_def frameIndexInBounds_def)
  moreover have "frameIndexInBounds initialState_cells \<and>
      \<not> frameIndexInBounds (dicomReducer_cells initialState_cells NEXT_FRAME)"
    by (simp add: initialState_cells_def frameIndexInBounds_def)
  moreover
  have "reachable (dicomReducer initialState NEXT_FRAME)"
    by (rule reachable_step[OF reachable_init])
  moreover have "frames (dicomReducer initialState NEXT_FRAME) = [] \<and>
      currentFrameIndex (dicomReducer initialState NEXT_FRAME) = - 1"
    by (simp add: initialState_def)
  moreover have "frames (dicomReducer_cells initialState_cells NEXT_FRAME) = [] \<and>
      currentFrameIndex (dicomReducer_cells initialState_cells NEXT_FRAME) = - 1"
    by (simp add: initialState_cells_def)
  ultimately show ?thesis by blast
qed

text \<open>
  C3. \<open>SET_CURRENT_FRAME\<close> is defined on every state and every integer payload and
  changes the index alone, to \<open>max 0 (min payload (frames.length - 1))\<close>, which is within
  bounds; with ten frames, payload 15 gives 9 and payload -3 gives 0.
\<close>

theorem SET_CURRENT_FRAME_clamps:
  fixes state :: DICOMState and cstate :: DICOMStateCells
  shows
  "dicomReducer state (SET_CURRENT_FRAME payload) =
     state\<lparr>currentFrameIndex := max 0 (min payload (int (length (frames state)) - 1))\<rparr> \<and>
   dicomReducer_cells cstate (SET_CURRENT_FRAME payload) =
     cstate\<lparr>currentFrameIndex := max 0 (min payload (int (length (frames cstate)) - 1))\<rparr> \<and>
   frameIndexInBounds (dicomReducer state (SET_CURRENT_FRAME payload)) \<and>
   frameIndexInBounds (dicomReducer_cells cstate (SET_CURRENT_FRAME payload)) \<and>
   (length (frames state) = 10 \<longrightarrow>
      currentFrameIndex (dicomReducer state (SET_CURRENT_FRAME 15)) = 9 \<and>
      currentFrameIndex (dicomReducer state (SET_CURRENT_FRAME (- 3))) = 0) \<and>
   (length (frames cstate) = 10 \<longrightarrow>
      currentFrameIndex (dicomReducer_cells cstate (SET_CURRENT_FRAME 15)) = 9 \<and>
      currentFrameIndex (dicomReducer_cells cstate (SET_CURRENT_FRAME (- 3))) = 0)"
  by (auto simp: frameIndexInBounds_def)

theorem SET_CURRENT_FRAME_clamps_witness:
  "length (frames (dicomReducer initialState (SET_FRAMES tenFrames))) = 10 \<and>
   currentFrameIndex (dicomReducer (dicomReducer initialState (SET_FRAMES tenFrames))
      (SET_CURRENT_FRAME 15)) = 9 \<and>
   currentFrameIndex (dicomReducer (dicomReducer initialState (SET_FRAMES tenFrames))
      (SET_CURRENT_FRAME (- 3))) = 0 \<and>
   length (frames (dicomReducer_cells initialState_cells (SET_FRAMES tenFrames))) = 10 \<and>
   currentFrameIndex (dicomReducer_cells (dicomReducer_cells initialState_cells (SET_FRAMES tenFrames))
      (SET_CURRENT_FRAME 15)) = 9 \<and>
   currentFrameIndex (dicomReducer_cells (dicomReducer_cells initialState_cells (SET_FRAMES tenFrames))
      (SET_CURRENT_FRAME (- 3))) = 0"
proof -
  have a: "length (frames (dicomReducer initialState (SET_FRAMES tenFrames))) = 10"
    by (simp add: tenFrames_def)
  have b: "length (frames (dicomReducer_cells initialState_cells (SET_FRAMES tenFrames))) = 10"
    by (simp add: tenFrames_def)
  from SET_CURRENT_FRAME_clamps[of "dicomReducer initialState (SET_FRAMES tenFrames)" 0
      "dicomReducer_cells initialState_cells (SET_FRAMES tenFrames)"] a b
  show ?thesis by blast
qed

text \<open>
  C4. \<open>RESET_VIEW\<close> yields \<open>windowWidth = 400\<close> and \<open>windowLevel = 50\<close>. In the
  single-select store it does not: there the reset values are 1 and 1.
\<close>

theorem RESET_VIEW_single_select_counterexample:
  "\<not> (windowWidth (dicomReducer initialState RESET_VIEW) = 400 \<and>
      windowLevel (dicomReducer initialState RESET_VIEW) = 50)"
  by (simp add: initialState_def)

text \<open>
  C4, as amended. In the per-cell grid store \<open>RESET_VIEW\<close> yields \<open>windowWidth = 400\<close>,
  \<open>windowLevel = 50\<close> and a \<open>cellWindowLevels\<close> made of the cells 0 to 3, each at
  \<open>{ windowWidth: 400, windowLevel: 50 }\<close>; in the single-select store it yields that
  store's own initial values, \<open>windowWidth = 1\<close> and \<open>windowLevel = 1\<close>.
\<close>

theorem RESET_VIEW_restores_defaults:
  fixes state :: DICOMState and cstate :: DICOMStateCells
  shows
  "windowWidth (dicomReducer_cells cstate RESET_VIEW) = 400 \<and>
   windowLevel (dicomReducer_cells cstate RESET_VIEW) = 50 \<and>
   dom (cellWindowLevels (dicomReducer_cells cstate RESET_VIEW)) = {0, 1, 2, 3} \<and>
   ran (cellWindowLevels (dicomReducer_cells cstate RESET_VIEW)) =
     {\<lparr> cellWindowWidth = 400, cellWindowLevel = 50 \<rparr>} \<and>
   windowWidth (dicomReducer state RESET_VIEW) = 1 \<and>
   windowLevel (dicomReducer state RESET_VIEW) = 1 \<and>
   windowWidth (dicomReducer state RESET_VIEW) = windowWidth initialState \<and>
   windowLevel (dicomReducer state RESET_VIEW) = windowLevel initialState"
  by (auto simp: initialState_def ran_def)

text \<open>
  C6. \<open>SET_GRID_SIZE\<close> clamps every integer payload into the store's inclusive range,
  1 to 4 in the single-select store and 1 to 2 in the per-cell grid store: 99 gives the
  maximum, a payload below 1 gives 1.
\<close>

theorem SET_GRID_SIZE_clamps:
  fixes state :: DICOMState and cstate :: DICOMStateCells
  shows
  "gridSize (dicomReducer state (SET_GRID_SIZE payload)) =
     (if payload < 1 then 1 else if 4 < payload then 4 else payload) \<and>
   gridSize (dicomReducer_cells cstate (SET_GRID_SIZE payload)) =
     (if payload < 1 then 1 else if 2 < payload then 2 else payload) \<and>
   gridSize (dicomReducer state (SET_GRID_SIZE payload)) \<in> {1..4} \<and>
   gridSize (dicomReducer_cells cstate (SET_GRID_SIZE payload)) \<in> {1..2} \<and>
   gridSize (dicomReducer state (SET_GRID_SIZE 99)) = 4 \<and>
   gridSize (dicomReducer_cells cstate (SET_GRID_SIZE 99)) = 2 \<and>
   (payload < 1 \<longrightarrow> gridSize (dicomReducer state (SET_GRID_SIZE payload)) = 1 \<and>
                    gridSize (dicomReducer_cells cstate (SET_GRID_SIZE payload)) = 1)"
  by auto

theorem SET_GRID_SIZE_clamps_witness:
  "(- 3 :: int) < 1 \<and>
   gridSize (dicomReducer initialState (SET_GRID_SIZE (- 3))) = 1 \<and>
   gridSize (dicomReducer_cells initialState_cells (SET_GRID_SIZE (- 3))) = 1 \<and>
   gridSize (dicomReducer initialState (SET_GRID_SIZE 99)) = 4 \<and>
   gridSize (dicomReducer_cells initialState_cells (SET_GRID_SIZE 99)) = 2"
proof -
  have h: "(- 3 :: int) < 1" by simp
  from SET_GRID_SIZE_clamps[of initialState "- 3" initialState_cells] h
  show ?thesis by blast
qed

section \<open>Properties of the playback controller\<close>

lemma smod_nonneg: "0 \<le> a \<Longrightarrow> 0 < b \<Longrightarrow> a smod b = a mod (b::int)"
  by (cases "a = 0") (simp_all add: signed_modulo_int_def)

lemma playbackTick_from_valid_index:
  assumes "isPlaying state" "frames state \<noteq> []" "- 1 \<le> currentFrameIndex state"
  shows "playbackTick state =
     state\<lparr>currentFrameIndex := (currentFrameIndex state + 1) mod int (length (frames state))\<rparr>"
proof -
  define n where "n = int (length (frames state))"
  define r where "r = (currentFrameIndex state + 1) mod n"
  from assms(2) have n: "0 < n" by (simp add: n_def)
  then have r: "0 \<le> r" "r < n" by (simp_all add: r_def)
  from assms(3) n have "(currentFrameIndex state + 1) smod n = r"
    by (simp add: smod_nonneg r_def)
  with assms(1,2) have "playbackTick state = dicomReducer state (SET_CURRENT_FRAME r)"
    by (simp add: playbackTick_def autoPlayNextIndex_def onFrameChange_def n_def)
  also from r have "\<dots> = state\<lparr>currentFrameIndex := r\<rparr>"
    by (simp add: n_def max_def min_def)
  finally show ?thesis by (simp add: r_def n_def)
qed

text \<open>
  C5. In every state of the store (every state reachable from the initial one, and any
  other whose index is not below -1) that is playing and has frames, one tick of the
  playback timer changes \<open>currentFrameIndex\<close> alone, to
  \<open>(currentFrameIndex + 1) mod frameCount\<close>; with five frames and the index at 4 the tick
  gives 0; with no frames a tick while playing changes nothing.
\<close>

theorem playbackTick_wraps:
  "((reachable state \<or> - 1 \<le> currentFrameIndex state) \<and>
    isPlaying state \<and> frames state \<noteq> [] \<longrightarrow>
      playbackTick state =
        state\<lparr>currentFrameIndex :=
          (currentFrameIndex state + 1) mod int (length (frames state))\<rparr>) \<and>
   (isPlaying state \<and> length (frames state) = 5 \<and> currentFrameIndex state = 4 \<longrightarrow>
      currentFrameIndex (playbackTick state) = 0) \<and>
   (isPlaying state \<and> frames state = [] \<longrightarrow> playbackTick state = state)"
proof (intro conjI impI)
  assume a: "(reachable state \<or> - 1 \<le> currentFrameIndex state) \<and>
    isPlaying state \<and> frames state \<noteq> []"
  with reachable_index_bounds[of state] have "- 1 \<le> currentFrameIndex state" by blast
  with a show "playbackTick state =
        state\<lparr>currentFrameIndex :=
          (currentFrameIndex state + 1) mod int (length (frames state))\<rparr>"
    by (simp add: playbackTick_from_valid_index)
next
  assume a: "isPlaying state \<and> length (frames state) = 5 \<and> currentFrameIndex state = 4"
  then have "frames state \<noteq> []" by auto
  with a playbackTick_from_valid_index[of state] show "currentFrameIndex (playbackTick state) = 0"
    by simp
next
  assume "isPlaying state \<and> frames state = []"
  then show "playbackTick state = state"
    by (simp add: playbackTick_def autoPlayNextIndex_def)
qed

theorem playbackTick_wraps_witness:
  "reachable playingAtLastOfFive \<and> isPlaying playingAtLastOfFive \<and>
   length (frames playingAtLastOfFive) = 5 \<and> currentFrameIndex playingAtLastOfFive = 4 \<and>
   playbackTick playingAtLastOfFive = playingAtLastOfFive\<lparr>currentFrameIndex := 0\<rparr> \<and>
   isPlaying (dicomReducer initialState (SET_PLAYING True)) \<and>
   frames (dicomReducer initialState (SET_PLAYING True)) = [] \<and>
   playbackTick (dicomReducer initialState (SET_PLAYING True)) =
     dicomReducer initialState (SET_PLAYING True)"
proof -
  have r: "reachable playingAtLastOfFive"
    unfolding playingAtLastOfFive_def by (intro reachable_step reachable_init)
  have f: "isPlaying playingAtLastOfFive \<and> length (frames playingAtLastOfFive) = 5 \<and>
      currentFrameIndex playingAtLastOfFive = 4"
    by (simp add: playingAtLastOfFive_def tenFrames_def initialState_def)
  then have ne: "frames playingAtLastOfFive \<noteq> []" by auto
  have e: "isPlaying (dicomReducer initialState (SET_PLAYING True)) \<and>
      frames (dicomReducer initialState (SET_PLAYING True)) = []"
    by (simp add: initialState_def)
  from playbackTick_wraps[of playingAtLastOfFive] r f ne
  have "playbackTick playingAtLastOfFive = playingAtLastOfFive\<lparr>currentFrameIndex := 0\<rparr>"
    by simp
  moreover from playbackTick_wraps[of "dicomReducer initialState (SET_PLAYING True)"] e
  have "playbackTick (dicomReducer initialState (SET_PLAYING True)) =
     dicomReducer initialState (SET_PLAYING True)" by blast
  ultimately show ?thesis using r f e by blast
qed

section \<open>Properties of the grid viewers\<close>

lemma filter_concat_cells:
  fixes F :: "nat \<Rightarrow> (nat \<times> 'a) list"
  assumes "\<And>j x. x \<in> set (F j) \<Longrightarrow> fst x = j"
  shows "filter (\<lambda>x. fst x = i) (concat (map F [0..<n])) = (if i < n then F i else [])"
proof (induction n)
  case 0
  show ?case by simp
next
  case (Suc n)
  have own: "filter (\<lambda>x. fst x = i) (F n) = (if i = n then F n else [])"
    using assms[of _ n] by (auto simp: filter_empty_conv intro!: filter_True)
  show ?case using Suc own by (auto simp: less_Suc_eq)
qed

lemma js_nth_map: "js_nth (map f xs) k = map_option f (js_nth xs k)"
  by (auto simp: js_nth_def)

lemma dataUrl_nonempty: "dataUrl frame \<noteq> []"
  by (simp add: dataUrl_def)

lemma renderCanvases_length:
  "length (renderCanvases gsize current frameList) = nat (gsize * gsize)"
  by (simp add: renderCanvases_def totalCells_def)

lemma canvasAt_renderCanvases:
  "canvasAt (renderCanvases gsize current frameList) i =
     (i < nat (gsize * gsize) \<and> 0 \<le> current + int i \<and> current + int i < int (length frameList))"
  by (auto simp: canvasAt_def renderCanvases_def js_nth_def totalCells_def)

lemma cellRequests_append [simp]:
  "cellRequests (xs @ ys) i = cellRequests xs i @ cellRequests ys i"
  by (simp add: cellRequests_def)

lemma cellRequests_Nil [simp]: "cellRequests [] i = []"
  by (simp add: cellRequests_def)

text \<open>What one run of the loop asks for in one cell.\<close>

lemma cellRequests_updateAllImages:
  "cellRequests (updateAllImages current frameList imageIds gsize canvasRefs ww wl) i =
     (if i < totalCells gsize \<and> current + int i < int (length frameList) \<and> canvasAt canvasRefs i
      then (case js_nth imageIds (current + int i) of
              None \<Rightarrow> []
            | Some imageDataUrl \<Rightarrow>
                if imageDataUrl \<noteq> []
                then [\<lparr> req_url = imageDataUrl, req_ww = Some ww, req_wl = Some wl \<rparr>] else [])
      else [])"
proof -
  define F where "F j = (let frameIndex = current + int j in
          if frameIndex < int (length frameList) \<and> canvasAt canvasRefs j then
            (case js_nth imageIds frameIndex of
               None \<Rightarrow> []
             | Some imageDataUrl \<Rightarrow>
                 if imageDataUrl \<noteq> [] then
                   (case loadAndDisplayImage True imageDataUrl (Some ww) (Some wl) of
                      None \<Rightarrow> [] | Some req \<Rightarrow> [(j, req)])
                 else [])
          else [])" for j
  have run: "updateAllImages current frameList imageIds gsize canvasRefs ww wl =
      concat (map F [0..<totalCells gsize])"
    by (simp add: updateAllImages_def F_def[abs_def])
  have own: "fst x = j" if "x \<in> set (F j)" for j x
  proof (cases "current + int j < int (length frameList) \<and> canvasAt canvasRefs j")
    case False
    with that show ?thesis by (simp add: F_def Let_def)
  next
    case c: True
    show ?thesis
    proof (cases "js_nth imageIds (current + int j)")
      case None
      with that c show ?thesis by (simp add: F_def Let_def)
    next
      case (Some u)
      with that c show ?thesis
        by (cases "u = []") (simp_all add: F_def Let_def loadAndDisplayImage_def)
    qed
  qed
  have sel: "filter (\<lambda>x. fst x = i) (concat (map F [0..<totalCells gsize])) =
      (if i < totalCells gsize then F i else [])"
    by (rule filter_concat_cells) (rule own)
  have Fi: "map snd (F i) =
     (if current + int i < int (length frameList) \<and> canvasAt canvasRefs i
      then (case js_nth imageIds (current + int i) of
              None \<Rightarrow> []
            | Some imageDataUrl \<Rightarrow>
                if imageDataUrl \<noteq> []
                then [\<lparr> req_url = imageDataUrl, req_ww = Some ww, req_wl = Some wl \<rparr>] else [])
      else [])"
  proof (cases "js_nth imageIds (current + int i)")
    case None
    then show ?thesis by (simp add: F_def Let_def)
  next
    case (Some u)
    then show ?thesis by (cases "u = []") (simp_all add: F_def Let_def loadAndDisplayImage_def)
  qed
  show ?thesis
  proof (cases "i < totalCells gsize")
    case True
    with sel Fi show ?thesis by (simp add: cellRequests_def run)
  next
    case False
    with sel show ?thesis by (simp add: cellRequests_def run)
  qed
qed

lemma loadGridImages_updateAllImages:
  "loadGridImages frameList current imageIds gsize canvasRefs ww wl =
     (if length imageIds = 0 \<or> length frameList = 0 then []
      else updateAllImages current frameList imageIds gsize canvasRefs ww wl)"
  by (simp add: loadGridImages_def updateAllImages_def)

lemma set_cellRequests:
  "(i, req) \<in> set issued \<Longrightarrow> req \<in> set (cellRequests issued i)"
  by (force simp: cellRequests_def)

lemma issued_has_canvas:
  assumes "(i, req) \<in> set (updateAllImages current frameList imageIds gsize canvasRefs ww wl)"
  shows "canvasAt canvasRefs i"
proof -
  from set_cellRequests[OF assms]
  have "cellRequests (updateAllImages current frameList imageIds gsize canvasRefs ww wl) i \<noteq> []"
    by auto
  then show ?thesis by (simp add: cellRequests_updateAllImages split: if_splits)
qed

lemma cellRequests_no_canvas:
  assumes "\<not> canvasAt (renderCanvases (gv_gridSize props) (gv_currentFrameIndex props) (gv_frames props)) i"
  shows "cellRequests (fst (commitEffects fire props ids)) i = []"
    and "cellRequests (snd (commitEffects fire props ids)) i = []"
  using assms
  by (simp_all add: commitEffects_def Let_def windowLevelEffect_def loadGridImages_updateAllImages
        cellRequests_updateAllImages)

lemma cellRequests_fresh:
  assumes "canvasAt (renderCanvases gsize current frameList) i"
  shows "cellRequests (updateAllImages current frameList (map dataUrl frameList) gsize
           (renderCanvases gsize current frameList) ww wl) i =
         [\<lparr> req_url = dataUrl (frameList ! nat (current + int i)), req_ww = Some ww, req_wl = Some wl \<rparr>]"
proof -
  from assms have b: "i < nat (gsize * gsize)" "0 \<le> current + int i"
    "current + int i < int (length frameList)"
    by (simp_all add: canvasAt_renderCanvases)
  then have "js_nth (map dataUrl frameList) (current + int i) =
      Some (dataUrl (frameList ! nat (current + int i)))"
    by (simp add: js_nth_map js_nth_def)
  with assms b show ?thesis
    by (simp add: cellRequests_updateAllImages totalCells_def dataUrl_nonempty)
qed

lemma cellRequests_load_fresh:
  assumes "canvasAt (renderCanvases (gv_gridSize props) (gv_currentFrameIndex props) (gv_frames props)) i"
  shows "cellRequests (snd (commitEffects True props (map dataUrl (gv_frames props)))) i =
         [\<lparr> req_url = dataUrl (gv_frames props ! nat (gv_currentFrameIndex props + int i)),
            req_ww = Some (gv_windowWidth props), req_wl = Some (gv_windowLevel props) \<rparr>]"
proof -
  from assms have "gv_frames props \<noteq> []" by (auto simp: canvasAt_renderCanvases)
  with cellRequests_fresh[OF assms] show ?thesis
    by (simp add: commitEffects_def Let_def loadGridImages_updateAllImages)
qed

lemma runCompletions_last:
  "runCompletions c (map (\<lambda>r. (r, Loaded)) (rs @ [req])) = onload req Blank"
  by (simp add: runCompletions_def onload_def)

lemma inOrder_cell:
  "map snd (filter (\<lambda>x. fst x = i) (inOrder issued)) =
     map (\<lambda>r. (r, Loaded)) (cellRequests issued i)"
  by (induction issued) (simp_all add: inOrder_def cellRequests_def)

lemma cellDisplay_inOrder:
  "cellDisplay canvasRefs before (inOrder issued) i =
     (if canvasAt canvasRefs i
      then runCompletions before (map (\<lambda>r. (r, Loaded)) (cellRequests issued i)) else Blank)"
  by (simp add: cellDisplay_def inOrder_cell)

text \<open>The requests of one cell that has a canvas, over the two commits.\<close>

lemma gridViewer_cell_requests:
  assumes inv: "idsInStep prev imageIds"
    and cv: "canvasAt (renderCanvases (gv_gridSize props) (gv_currentFrameIndex props) (gv_frames props)) i"
  shows "\<exists>rs. cellRequests (snd (gridViewer prev newArray imageIds props)) i =
           (if framesChanged prev newArray props \<or> depsChanged prev props
            then rs @ [\<lparr> req_url = dataUrl (gv_frames props ! nat (gv_currentFrameIndex props + int i)),
                         req_ww = Some (gv_windowWidth props), req_wl = Some (gv_windowLevel props) \<rparr>]
            else [])"
proof -
  from cv have ne: "gv_frames props \<noteq> []" by (auto simp: canvasAt_renderCanvases)
  show ?thesis
  proof (cases "framesChanged prev newArray props")
    case True
    with ne have "cellRequests (snd (gridViewer prev newArray imageIds props)) i =
        (cellRequests (fst (commitEffects (depsChanged prev props) props imageIds)) i @
         cellRequests (fst (commitEffects True props (map dataUrl (gv_frames props)))) i @
         cellRequests (snd (commitEffects (depsChanged prev props) props imageIds)) i) @
        cellRequests (snd (commitEffects True props (map dataUrl (gv_frames props)))) i"
      by (simp add: gridViewer_def Let_def convertFrames_def)
    with True show ?thesis unfolding cellRequests_load_fresh[OF cv] by auto
  next
    case False
    then obtain old where old: "prev = Some old" "gv_frames old = gv_frames props"
      by (auto simp: framesChanged_def split: option.splits)
    with inv ne have ids: "imageIds = map dataUrl (gv_frames props)" by (simp add: idsInStep_def)
    show ?thesis
    proof (cases "depsChanged prev props")
      case True
      with False have "cellRequests (snd (gridViewer prev newArray imageIds props)) i =
          cellRequests (fst (commitEffects True props (map dataUrl (gv_frames props)))) i @
          cellRequests (snd (commitEffects True props (map dataUrl (gv_frames props)))) i"
        by (simp add: gridViewer_def Let_def ids commitEffects_def)
      with True show ?thesis unfolding cellRequests_load_fresh[OF cv] by auto
    next
      case d: False
      with False show ?thesis by (simp add: gridViewer_def Let_def commitEffects_def)
    qed
  qed
qed

lemma gridViewer_no_canvas:
  assumes "\<not> canvasAt (renderCanvases (gv_gridSize props) (gv_currentFrameIndex props) (gv_frames props)) i"
  shows "cellRequests (snd (gridViewer prev newArray imageIds props)) i = []"
  by (simp add: gridViewer_def Let_def cellRequests_no_canvas[OF assms])

lemma gridViewer_ids:
  assumes "idsInStep prev imageIds"
  shows "idsInStep (Some props) (fst (gridViewer prev newArray imageIds props))"
proof (cases "framesChanged prev newArray props")
  case True
  then show ?thesis by (simp add: gridViewer_def Let_def idsInStep_def convertFrames_def)
next
  case False
  then obtain old where old: "prev = Some old" "gv_frames old = gv_frames props"
    by (auto simp: framesChanged_def split: option.splits)
  with assms False show ?thesis by (simp add: gridViewer_def Let_def idsInStep_def)
qed

text \<open>
  C7. In the uniform grid viewer, cell \<open>i\<close> of the \<open>gridSize * gridSize\<close> cells displays the
  frame at index \<open>currentFrameIndex + i\<close> of the shared frame list exactly when that index
  is within the list, and is blank otherwise.
  Not so. The viewer shows the two frames of series A in a grid of one cell and is given
  the one frame of series B. The frame count has changed, so both loops run in the commit
  that still holds the image ids of series A and composite frame 0 of series A into cell
  0; they run again on the ids of series B. Of the four decodes for cell 0 the delayed
  one of series A completes last, and the cell displays a frame that is not in the shared
  frame list, whose frame 0 is that of series B.
\<close>

theorem stale_frame_composited_last_counterexample:
  "idsInStep (Some seriesAProps) (map dataUrl seriesAFrames) \<and>
   gridViewer (Some seriesAProps) True (map dataUrl seriesAFrames) seriesBProps =
     ([''data:image/png;base64,B000''],
      [(0, \<lparr> req_url = ''data:image/png;base64,A000'', req_ww = Some 400, req_wl = Some 50 \<rparr>),
       (0, \<lparr> req_url = ''data:image/png;base64,B000'', req_ww = Some 400, req_wl = Some 50 \<rparr>),
       (0, \<lparr> req_url = ''data:image/png;base64,A000'', req_ww = Some 400, req_wl = Some 50 \<rparr>),
       (0, \<lparr> req_url = ''data:image/png;base64,B000'', req_ww = Some 400, req_wl = Some 50 \<rparr>)]) \<and>
   canvasAt (renderCanvases 1 0 (gv_frames seriesBProps)) 0 \<and>
   map dataUrl (gv_frames seriesBProps) = [''data:image/png;base64,B000''] \<and>
   cellDisplay (renderCanvases 1 0 (gv_frames seriesBProps)) Blank
     [(0, \<lparr> req_url = ''data:image/png;base64,A000'', req_ww = Some 400, req_wl = Some 50 \<rparr>, Loaded),
      (0, \<lparr> req_url = ''data:image/png;base64,B000'', req_ww = Some 400, req_wl = Some 50 \<rparr>, Loaded),
      (0, \<lparr> req_url = ''data:image/png;base64,B000'', req_ww = Some 400, req_wl = Some 50 \<rparr>, Loaded),
      (0, \<lparr> req_url = ''data:image/png;base64,A000'', req_ww = Some 400, req_wl = Some 50 \<rparr>, Loaded)] 0 =
     Composite ''data:image/png;base64,A000'' (Some (400, 50))"
  by (simp add: idsInStep_def seriesAProps_def seriesBProps_def seriesAFrames_def gridViewer_def
      framesChanged_def depsChanged_def commitEffects_def convertFrames_def windowLevelEffect_def
      updateAllImages_def loadGridImages_def renderCanvases_def canvasAt_def totalCells_def
      js_nth_def dataUrl_def truthy_def loadAndDisplayImage_def cellDisplay_def runCompletions_def
      onload_def Let_def)

text \<open>
  C7, as amended. For every change of props (the first render included) of a viewer whose
  image ids are those of the frames it was last given: the grid has exactly
  \<open>gridSize * gridSize\<close> cells; cell \<open>i\<close> has a canvas exactly when \<open>i\<close> is one of them and
  \<open>currentFrameIndex + i\<close> is within the shared frame list; no composite is ever issued
  for a cell without a canvas, which displays nothing whatever completes. For a cell with
  a canvas, composites are issued exactly when the frame list or a dependency of the
  loops has changed; the last one issued is that of the frame at index
  \<open>currentFrameIndex + i\<close> with the window of the props, and it is what the cell displays
  when the decodes succeed and complete in the order of issue (with nothing issued, the
  cell keeps what it showed). Afterwards the image ids are again those of the frames.
  Earlier composites of the same change may be of the frame list before, and one of them
  is displayed if its decode completes last.
\<close>

theorem gridViewer_cell_display:
  assumes "idsInStep prev imageIds"
  shows "let frameList = gv_frames props;
             current = gv_currentFrameIndex props;
             gsize = gv_gridSize props;
             canvasRefs = renderCanvases gsize current frameList;
             issued = snd (gridViewer prev newArray imageIds props)
         in length canvasRefs = nat (gsize * gsize) \<and>
            idsInStep (Some props) (fst (gridViewer prev newArray imageIds props)) \<and>
            (\<forall>i. canvasAt canvasRefs i =
                   (i < nat (gsize * gsize) \<and> 0 \<le> current + int i \<and>
                    current + int i < int (length frameList))) \<and>
            (\<forall>i req. (i, req) \<in> set issued \<longrightarrow> canvasAt canvasRefs i) \<and>
            (\<forall>i. \<not> canvasAt canvasRefs i \<longrightarrow>
                   cellRequests issued i = [] \<and>
                   (\<forall>completions. cellDisplay canvasRefs before completions i = Blank)) \<and>
            (\<forall>i. canvasAt canvasRefs i \<longrightarrow>
                   (cellRequests issued i \<noteq> [] \<longleftrightarrow>
                      framesChanged prev newArray props \<or> depsChanged prev props) \<and>
                   (cellRequests issued i = [] \<longrightarrow>
                      cellDisplay canvasRefs before (inOrder issued) i = before) \<and>
                   (cellRequests issued i \<noteq> [] \<longrightarrow>
                      last (cellRequests issued i) =
                        \<lparr> req_url = dataUrl (frameList ! nat (current + int i)),
                          req_ww = Some (gv_windowWidth props),
                          req_wl = Some (gv_windowLevel props) \<rparr> \<and>
                      cellDisplay canvasRefs before (inOrder issued) i =
                        Composite (dataUrl (frameList ! nat (current + int i)))
                          (if gv_windowWidth props \<noteq> 0 \<and> gv_windowLevel props \<noteq> 0
                           then Some (gv_windowWidth props, gv_windowLevel props) else None)))"
proof -
  define frameList where "frameList = gv_frames props"
  define current where "current = gv_currentFrameIndex props"
  define gsize where "gsize = gv_gridSize props"
  define canvasRefs where "canvasRefs = renderCanvases gsize current frameList"
  define issued where "issued = snd (gridViewer prev newArray imageIds props)"
  note defs = frameList_def current_def gsize_def canvasRefs_def issued_def
  have a: "length canvasRefs = nat (gsize * gsize)"
    by (simp add: canvasRefs_def renderCanvases_length)
  have b: "idsInStep (Some props) (fst (gridViewer prev newArray imageIds props))"
    using assms by (rule gridViewer_ids)
  have c: "canvasAt canvasRefs i =
             (i < nat (gsize * gsize) \<and> 0 \<le> current + int i \<and>
              current + int i < int (length frameList))" for i
    by (simp add: canvasRefs_def canvasAt_renderCanvases)
  have none: "cellRequests issued i = []" if "\<not> canvasAt canvasRefs i" for i
    using that unfolding defs by (rule gridViewer_no_canvas)
  have d: "canvasAt canvasRefs i" if "(i, req) \<in> set issued" for i req
  proof (rule ccontr)
    assume "\<not> canvasAt canvasRefs i"
    from none[OF this] set_cellRequests[OF that] show False by simp
  qed
  have e: "cellRequests issued i = [] \<and>
           (\<forall>completions. cellDisplay canvasRefs before completions i = Blank)"
    if "\<not> canvasAt canvasRefs i" for i
    using that none[OF that] by (simp add: cellDisplay_def)
  have f: "(cellRequests issued i \<noteq> [] \<longleftrightarrow>
              framesChanged prev newArray props \<or> depsChanged prev props) \<and>
           (cellRequests issued i = [] \<longrightarrow>
              cellDisplay canvasRefs before (inOrder issued) i = before) \<and>
           (cellRequests issued i \<noteq> [] \<longrightarrow>
              last (cellRequests issued i) =
                \<lparr> req_url = dataUrl (frameList ! nat (current + int i)),
                  req_ww = Some (gv_windowWidth props),
                  req_wl = Some (gv_windowLevel props) \<rparr> \<and>
              cellDisplay canvasRefs before (inOrder issued) i =
                Composite (dataUrl (frameList ! nat (current + int i)))
                  (if gv_windowWidth props \<noteq> 0 \<and> gv_windowLevel props \<noteq> 0
                   then Some (gv_windowWidth props, gv_windowLevel props) else None))"
    if cv: "canvasAt canvasRefs i" for i
  proof -
    define right where "right =
        \<lparr> req_url = dataUrl (frameList ! nat (current + int i)),
          req_ww = Some (gv_windowWidth props), req_wl = Some (gv_windowLevel props) \<rparr>"
    from cv have cv': "canvasAt (renderCanvases (gv_gridSize props) (gv_currentFrameIndex props)
        (gv_frames props)) i" by (simp only: defs)
    from gridViewer_cell_requests[OF assms cv', of newArray] obtain rs where
      rs: "cellRequests issued i =
           (if framesChanged prev newArray props \<or> depsChanged prev props then rs @ [right] else [])"
      unfolding defs right_def by blast
    have on: "onload right Blank =
        Composite (dataUrl (frameList ! nat (current + int i)))
          (if gv_windowWidth props \<noteq> 0 \<and> gv_windowLevel props \<noteq> 0
           then Some (gv_windowWidth props, gv_windowLevel props) else None)"
      by (simp add: onload_def right_def truthy_def)
    show ?thesis
    proof (cases "framesChanged prev newArray props \<or> depsChanged prev props")
      case True
      with rs have r: "cellRequests issued i = rs @ [right]" by simp
      with True cv on show ?thesis
        unfolding right_def[symmetric]
        by (simp add: cellDisplay_inOrder runCompletions_last del: map_append)
    next
      case False
      with rs have "cellRequests issued i = []" by simp
      with False cv show ?thesis by (simp add: cellDisplay_inOrder runCompletions_def)
    qed
  qed
  from a b c d e f show ?thesis
    unfolding Let_def defs[symmetric] by blast
qed

theorem gridViewer_cell_display_witness:
  "idsInStep None [] \<and>
   length (renderCanvases 2 1 threeFrames) = 4 \<and>
   canvasAt (renderCanvases 2 1 threeFrames) 1 \<and>
   \<not> canvasAt (renderCanvases 2 1 threeFrames) 2 \<and>
   cellRequests (snd (gridViewer None False [] threeFramesProps)) 1 \<noteq> [] \<and>
   cellDisplay (renderCanvases 2 1 threeFrames) Blank
     (inOrder (snd (gridViewer None False [] threeFramesProps))) 1 =
     Composite ''data:image/png;base64,CCCC'' (Some (400, 50)) \<and>
   cellDisplay (renderCanvases 2 1 threeFrames) Blank
     (inOrder (snd (gridViewer None False [] threeFramesProps))) 2 = Blank"
proof -
  have h: "idsInStep None []" by (simp add: idsInStep_def)
  note t = gridViewer_cell_display[OF h, of threeFramesProps False Blank]
  have p: "gv_frames threeFramesProps = threeFrames" "gv_currentFrameIndex threeFramesProps = 1"
    "gv_gridSize threeFramesProps = 2" "gv_windowWidth threeFramesProps = 400"
    "gv_windowLevel threeFramesProps = 50"
    by (simp_all add: threeFramesProps_def)
  have len: "length threeFrames = 3" by (simp add: threeFrames_def)
  have fc: "framesChanged None False threeFramesProps" by (simp add: framesChanged_def)
  from t have a: "length (renderCanvases 2 1 threeFrames) = 4"
    unfolding Let_def p by simp
  from t have c: "\<forall>i. canvasAt (renderCanvases 2 1 threeFrames) i =
      (i < nat (2 * 2) \<and> 0 \<le> 1 + int i \<and> 1 + int i < int (length threeFrames))"
    unfolding Let_def p by blast
  from c have c1: "canvasAt (renderCanvases 2 1 threeFrames) 1"
    and c2: "\<not> canvasAt (renderCanvases 2 1 threeFrames) 2"
    by (simp_all add: len)
  from t c2 have d2: "cellDisplay (renderCanvases 2 1 threeFrames) Blank
     (inOrder (snd (gridViewer None False [] threeFramesProps))) 2 = Blank"
    unfolding Let_def p by blast
  from t c1 fc have r1: "cellRequests (snd (gridViewer None False [] threeFramesProps)) 1 \<noteq> []"
    unfolding Let_def p by blast
  from t c1 r1 have "cellDisplay (renderCanvases 2 1 threeFrames) Blank
     (inOrder (snd (gridViewer None False [] threeFramesProps))) 1 =
     Composite (dataUrl (threeFrames ! nat (1 + int 1)))
       (if (400::real) \<noteq> 0 \<and> (50::real) \<noteq> 0 then Some (400, 50) else None)"
    unfolding Let_def p by blast
  then have d1: "cellDisplay (renderCanvases 2 1 threeFrames) Blank
     (inOrder (snd (gridViewer None False [] threeFramesProps))) 1 =
     Composite ''data:image/png;base64,CCCC'' (Some (400, 50))"
    by (simp add: threeFrames_def dataUrl_def)
  from h a c1 c2 r1 d1 d2 show ?thesis by blast
qed

lemma dispatchAll_simps [simp]:
  "dispatchAll state [] = state"
  "dispatchAll state (a # as) = dispatchAll (dicomReducer_cells state a) as"
  by (simp_all add: dispatchAll_def)

text \<open>
  C8. After a cell's series is reassigned, the old series' frames are never shown in
  that cell, even before the new fetch resolves, and the cell's frame index is 0.
  Not so: in a grid of one cell, cell 0 shows frame 1 of series A; while the fetch for
  series B is pending, and after it has failed, the cell is still bound to series A at
  frame 1 and that frame is what is composited.
\<close>

theorem reassigned_cell_shows_old_frame_counterexample:
  "gridSize cellZeroOnSeriesA = 1 \<and>
   cellCanvas cellZeroOnSeriesA 0 \<and>
   selectedSeriesForCells cellZeroOnSeriesA 0 = Some \<lparr> seriesUid = ''seriesA'', frameIndex = 1 \<rparr> \<and>
   selectedSeriesForCells (reassignCell cellZeroOnSeriesA Pending 0 ''seriesB'') 0 =
     Some \<lparr> seriesUid = ''seriesA'', frameIndex = 1 \<rparr> \<and>
   cellComposite (reassignCell cellZeroOnSeriesA Pending 0 ''seriesB'') 0 =
     Inr (Some \<lparr> req_url = ''data:image/png;base64,A111'', req_ww = Some 400, req_wl = Some 50 \<rparr>) \<and>
   cellComposite (reassignCell cellZeroOnSeriesA Rejected 0 ''seriesB'') 0 =
     Inr (Some \<lparr> req_url = ''data:image/png;base64,A111'', req_ww = Some 400, req_wl = Some 50 \<rparr>)"
  by (simp add: cellZeroOnSeriesA_def reassignCell_def handleSeriesChange_def loadSeriesForCell_def
      initialState_cells_def sampleSession_def seriesAFrames_def cellComposite_def cellCanvas_def
      renderedFrame_def totalCells_def
      loadCellImage_def cellFrameData_def js_nth_def loadAndDisplayImage_def dataUrl_def Let_def)

lemma cellComposite_after_assign:
  fixes state :: DICOMStateCells
  assumes "selectedSeriesForCells state (int i) = Some \<lparr> seriesUid = u, frameIndex = 0 \<rparr>"
    and "cellFrames state (int i) = Some fs"
  shows "cellComposite state i =
     (if i < nat (gridSize state * gridSize state) \<and> u \<noteq> [] \<and> fs \<noteq> [] then
        Inr (Some \<lparr> req_url = dataUrl (fs ! 0),
               req_ww = Some (cellWindowWidth (case cellWindowLevels state (int i) of
                            None \<Rightarrow> defaultCellWindowLevel | Some w \<Rightarrow> w)),
               req_wl = Some (cellWindowLevel (case cellWindowLevels state (int i) of
                            None \<Rightarrow> defaultCellWindowLevel | Some w \<Rightarrow> w)) \<rparr>)
      else Inr None)"
  using assms
  by (cases fs)
     (simp_all add: cellComposite_def cellCanvas_def renderedFrame_def loadCellImage_def
        cellFrameData_def totalCells_def js_nth_def loadAndDisplayImage_def Let_def)

lemma cellCanvas_bound: "cellCanvas state i \<Longrightarrow> i < nat (gridSize state * gridSize state)"
  by (simp add: cellCanvas_def totalCells_def)

lemma cellComposite_bound:
  "\<not> i < nat (gridSize state * gridSize state) \<Longrightarrow> cellComposite state i = Inr None"
  by (simp add: cellComposite_def totalCells_def)

text \<open>
  C8, as amended. Reassigning a cell's series asks for the new series' frames whenever
  there is a session, and changes nothing while that fetch is pending or when it fails.
  When it resolves, the cell is bound to the new series at frame index 0 and its frame
  buffer is the fetched one; from then on a cell of the grid (\<open>i < gridSize * gridSize\<close>)
  composites frame 0 of the new buffer, or nothing if the series uid or the buffer is
  empty. A cell index past the grid has no canvas and gets no composite, whatever the
  store holds for it.
\<close>

theorem reassignCell_effect:
  fixes state :: DICOMStateCells
  shows
  "reassignCell state Pending cellIndex newUid = state \<and>
   reassignCell state Rejected cellIndex newUid = state \<and>
   fst (handleSeriesChange (loadSeriesForCell (session state) response) cellIndex newUid) =
     map_option (\<lambda>s. (session_id s, newUid)) (session state) \<and>
   reassignCell state (Resolved newFrames) cellIndex newUid =
     (if session state = None then state
      else state\<lparr>selectedSeriesForCells :=
                   (selectedSeriesForCells state)
                     (cellIndex \<mapsto> \<lparr> seriesUid = newUid, frameIndex = 0 \<rparr>),
                 cellFrames := (cellFrames state)(cellIndex \<mapsto> newFrames)\<rparr>) \<and>
   (session state \<noteq> None \<longrightarrow>
      map_sum id (map_option req_url)
        (cellComposite (reassignCell state (Resolved newFrames) (int i) newUid) i) =
      (if i < nat (gridSize state * gridSize state) \<and> newUid \<noteq> [] \<and> newFrames \<noteq> []
       then Inr (Some (dataUrl (newFrames ! 0)))
       else Inr None)) \<and>
   (\<forall>s. \<not> i < nat (gridSize s * gridSize s) \<longrightarrow>
      \<not> cellCanvas s i \<and> cellComposite s i = Inr None)"
proof -
  have a: "reassignCell state Pending cellIndex newUid = state"
    "reassignCell state Rejected cellIndex newUid = state"
    by (simp_all add: reassignCell_def handleSeriesChange_def loadSeriesForCell_def
          split: option.splits)
  have b: "fst (handleSeriesChange (loadSeriesForCell (session state) response) cellIndex newUid) =
     map_option (\<lambda>s. (session_id s, newUid)) (session state)"
    by (simp add: handleSeriesChange_def loadSeriesForCell_def split: option.splits)
  have c: "reassignCell state (Resolved newFrames) c newUid =
     (if session state = None then state
      else state\<lparr>selectedSeriesForCells :=
                   (selectedSeriesForCells state)
                     (c \<mapsto> \<lparr> seriesUid = newUid, frameIndex = 0 \<rparr>),
                 cellFrames := (cellFrames state)(c \<mapsto> newFrames)\<rparr>)" for c
    by (simp add: reassignCell_def handleSeriesChange_def loadSeriesForCell_def
          split: option.splits)
  have d: "map_sum id (map_option req_url)
        (cellComposite (reassignCell state (Resolved newFrames) (int i) newUid) i) =
      (if i < nat (gridSize state * gridSize state) \<and> newUid \<noteq> [] \<and> newFrames \<noteq> []
       then Inr (Some (dataUrl (newFrames ! 0)))
       else Inr None)" if "session state \<noteq> None"
  proof -
    let ?s = "reassignCell state (Resolved newFrames) (int i) newUid"
    from that have g: "gridSize ?s = gridSize state" by (auto simp: c)
    from that have "selectedSeriesForCells ?s (int i) = Some \<lparr> seriesUid = newUid, frameIndex = 0 \<rparr>"
      and "cellFrames ?s (int i) = Some newFrames"
      by (auto simp: c)
    from cellComposite_after_assign[OF this] show ?thesis by (simp add: g)
  qed
  have e: "\<forall>s. \<not> i < nat (gridSize s * gridSize s) \<longrightarrow>
      \<not> cellCanvas s i \<and> cellComposite s i = Inr None"
    using cellCanvas_bound cellComposite_bound by blast
  from a b c[of cellIndex] d e show ?thesis by blast
qed

theorem reassignCell_effect_witness:
  "session cellZeroOnSeriesA \<noteq> None \<and>
   gridSize cellZeroOnSeriesA = 1 \<and>
   map_sum id (map_option req_url)
     (cellComposite (reassignCell cellZeroOnSeriesA (Resolved threeFrames) (int 0) ''seriesB'') 0) =
     Inr (Some ''data:image/png;base64,AAAA'') \<and>
   selectedSeriesForCells (reassignCell cellZeroOnSeriesA (Resolved threeFrames) 0 ''seriesB'') 0 =
     Some \<lparr> seriesUid = ''seriesB'', frameIndex = 0 \<rparr> \<and>
   \<not> (3::nat) < nat (gridSize cellZeroOnSeriesA * gridSize cellZeroOnSeriesA) \<and>
   map_sum id (map_option req_url)
     (cellComposite (reassignCell cellZeroOnSeriesA (Resolved threeFrames) (int 3) ''seriesB'') 3) =
     Inr None"
proof -
  have h: "session cellZeroOnSeriesA \<noteq> None"
    by (simp add: cellZeroOnSeriesA_def initialState_cells_def)
  have g: "gridSize cellZeroOnSeriesA = 1"
    by (simp add: cellZeroOnSeriesA_def initialState_cells_def)
  note t = reassignCell_effect[of cellZeroOnSeriesA 0 "''seriesB''" Pending threeFrames 0]
  note t3 = reassignCell_effect[of cellZeroOnSeriesA 3 "''seriesB''" Pending threeFrames 3]
  from t h have x: "map_sum id (map_option req_url)
      (cellComposite (reassignCell cellZeroOnSeriesA (Resolved threeFrames) (int 0) ''seriesB'') 0) =
      (if 0 < nat (gridSize cellZeroOnSeriesA * gridSize cellZeroOnSeriesA) \<and>
          ''seriesB'' \<noteq> [] \<and> threeFrames \<noteq> [] then Inr (Some (dataUrl (threeFrames ! 0)))
       else Inr None)"
    by blast
  have v: "(if 0 < nat (gridSize cellZeroOnSeriesA * gridSize cellZeroOnSeriesA) \<and>
          ''seriesB'' \<noteq> [] \<and> threeFrames \<noteq> [] then Inr (Some (dataUrl (threeFrames ! 0)))
       else Inr None) = (Inr (Some ''data:image/png;base64,AAAA'') :: js_error + string option)"
    by (simp add: threeFrames_def dataUrl_def g)
  from t have "reassignCell cellZeroOnSeriesA (Resolved threeFrames) 0 ''seriesB'' =
     (if session cellZeroOnSeriesA = None then cellZeroOnSeriesA
      else cellZeroOnSeriesA\<lparr>selectedSeriesForCells :=
                   (selectedSeriesForCells cellZeroOnSeriesA)
                     (0 \<mapsto> \<lparr> seriesUid = ''seriesB'', frameIndex = 0 \<rparr>),
                 cellFrames := (cellFrames cellZeroOnSeriesA)(0 \<mapsto> threeFrames)\<rparr>)"
    by blast
  with h have y: "selectedSeriesForCells
      (reassignCell cellZeroOnSeriesA (Resolved threeFrames) 0 ''seriesB'') 0 =
     Some \<lparr> seriesUid = ''seriesB'', frameIndex = 0 \<rparr>"
    by auto
  have n3: "\<not> (3::nat) < nat (gridSize cellZeroOnSeriesA * gridSize cellZeroOnSeriesA)"
    by (simp add: g)
  from t3 h have "map_sum id (map_option req_url)
      (cellComposite (reassignCell cellZeroOnSeriesA (Resolved threeFrames) (int 3) ''seriesB'') 3) =
      (if 3 < nat (gridSize cellZeroOnSeriesA * gridSize cellZeroOnSeriesA) \<and>
          ''seriesB'' \<noteq> [] \<and> threeFrames \<noteq> [] then Inr (Some (dataUrl (threeFrames ! 0)))
       else Inr None)"
    by blast
  with n3 have z: "map_sum id (map_option req_url)
      (cellComposite (reassignCell cellZeroOnSeriesA (Resolved threeFrames) (int 3) ''seriesB'') 3) =
      Inr None"
    by simp
  from h g x[unfolded v] y n3 z show ?thesis by blast
qed

section \<open>Properties of the compositor\<close>

text \<open>
  C9. Two composite requests for one canvas, issued with window/level (400, 50) and then
  (200, 30): only the later-issued one persists, whatever the order of completion.
  Not so: when the decode of the second completes first, the first draws last, and the
  canvas keeps the (400, 50) composite; on a gray sample of 100 the two windows give 159
  and 217.
\<close>

theorem superseded_request_draws_last_counterexample:
  "loadAndDisplayImage True ''data:image/png;base64,AAAA'' (Some 400) (Some 50) = Some firstRequest \<and>
   loadAndDisplayImage True ''data:image/png;base64,AAAA'' (Some 200) (Some 30) = Some secondRequest \<and>
   runCompletions Blank [(secondRequest, Loaded), (firstRequest, Loaded)] =
     Composite ''data:image/png;base64,AAAA'' (Some (400, 50)) \<and>
   runCompletions Blank [(secondRequest, Loaded), (firstRequest, Loaded)] \<noteq>
     Composite ''data:image/png;base64,AAAA'' (Some (200, 30)) \<and>
   applyWindowLevel [100, 100, 100, 255] (Fin 400) (Fin 50) = Inr [159, 159, 159, 255] \<and>
   applyWindowLevel [100, 100, 100, 255] (Fin 200) (Fin 30) = Inr [217, 217, 217, 255]"
proof -
  have "applyWindowLevel [100, 100, 100, 255] (Fin 400) (Fin 50) = Inr [159, 159, 159, 255]"
    by (simp add: window_eval)
  moreover have "applyWindowLevel [100, 100, 100, 255] (Fin 200) (Fin 30) = Inr [217, 217, 217, 255]"
    by (simp add: window_eval)
  ultimately show ?thesis
    by (simp add: loadAndDisplayImage_def firstRequest_def secondRequest_def runCompletions_def
        onload_def truthy_def)
qed

text \<open>
  C9, as amended. What persists on a canvas is the composite of the request whose decode
  completed last; a failed decode leaves the canvas as it was. The later-issued
  (200, 30) persists when the two decodes complete in the order of issue.
\<close>

theorem last_completed_request_persists:
  "runCompletions c (completions @ [(req, Loaded)]) = onload req Blank \<and>
   runCompletions c (completions @ [(req, Failed)]) = runCompletions c completions \<and>
   runCompletions c [(firstRequest, Loaded), (secondRequest, Loaded)] =
     Composite ''data:image/png;base64,AAAA'' (Some (200, 30)) \<and>
   runCompletions c [(secondRequest, Loaded), (firstRequest, Loaded)] =
     Composite ''data:image/png;base64,AAAA'' (Some (400, 50))"
  by (simp add: runCompletions_def onload_def firstRequest_def secondRequest_def truthy_def)

end
